theory Spec2Isabelle
  imports Main "HOL-Library.Sublist"
begin

section \<open>The event queue: class AsyncQueue of sdk.ts\<close>

text \<open>
  A queue slot is what the array \<open>q\<close> of the class holds (sdk.ts, line 12): a value, an
  \<open>Error\<close> object or the \<open>DONE\<close> symbol. The values pushed are results of
  \<open>JSON.parse\<close>, which are neither \<open>Error\<close> objects nor the private symbol, so the three
  kinds are told apart as the iterator tells them apart. An iterator result is the argument
  of the stored resolver, \<open>{done: false, value}\<close> or \<open>{done: true, value: undefined}\<close>.
\<close>

datatype ('a, 'e) slot = Item 'a | Failure 'e | DONE

datatype 'a iter_result = IterValue 'a | IterDone

text \<open>
  What the single consumer (the \<open>for await\<close> loop over the queue) sees of each settled
  pull: a value, an exception thrown out of the pull, or normal completion.
\<close>

datatype ('a, 'e) obs = Got 'a | Thrown 'e | Finished

text \<open>
  Control state of the async generator \<open>iterator()\<close>: suspended at its start or at a
  \<open>yield\<close>; blocked in \<open>await new Promise\<close> with its resolver stored in \<open>pending\<close>;
  its promise resolved but the continuation (a microtask) not run yet; returned or thrown.
\<close>

datatype 'a gen = Suspended | Awaiting | Resumed "'a iter_result" | Completed

text \<open>
  The fields \<open>q\<close> and \<open>pending\<close> of the class (\<open>pending\<close> holds at most the resolver of
  the promise created in \<open>iterator()\<close>, so it is modelled by whether it is set), the
  generator, the consumer's log, and the errors that callbacks registered with
  \<open>setImmediate\<close> throw: those are thrown on a later turn of the event loop, outside the
  iteration.
\<close>

record ('a, 'e) async_queue =
  q :: "('a, 'e) slot list"
  pending :: bool
  gen :: "'a gen"
  out :: "('a, 'e) obs list"
  uncaught :: "'e list"

definition new_queue :: "('a, 'e) async_queue" where
  "new_queue = \<lparr>q = [], pending = False, gen = Suspended, out = [], uncaught = []\<rparr>"

text \<open>
  Calling the stored resolver settles the promise the generator is blocked on. Then
  \<open>push\<close> (lines 16 to 24), \<open>error\<close> (lines 25 to 38, the \<open>setImmediate\<close> callback
  recorded in \<open>uncaught\<close>) and \<open>end\<close> (lines 39 to 47).
\<close>

definition resolve :: "'a iter_result \<Rightarrow> ('a, 'e) async_queue \<Rightarrow> ('a, 'e) async_queue" where
  "resolve r s = (case gen s of Awaiting \<Rightarrow> s\<lparr>gen := Resumed r\<rparr> | _ \<Rightarrow> s)"

definition push :: "'a \<Rightarrow> ('a, 'e) async_queue \<Rightarrow> ('a, 'e) async_queue" where
  "push v s =
     (if pending s then resolve (IterValue v) (s\<lparr>pending := False\<rparr>)
      else s\<lparr>q := q s @ [Item v]\<rparr>)"

definition error :: "'e \<Rightarrow> ('a, 'e) async_queue \<Rightarrow> ('a, 'e) async_queue" where
  "error err s =
     (if pending s
      then resolve IterDone (s\<lparr>pending := False, uncaught := uncaught s @ [err]\<rparr>)
      else s\<lparr>q := q s @ [Failure err]\<rparr>)"

definition end_queue :: "('a, 'e) async_queue \<Rightarrow> ('a, 'e) async_queue" where
  "end_queue s =
     (if pending s then resolve IterDone (s\<lparr>pending := False\<rparr>)
      else s\<lparr>q := q s @ [DONE]\<rparr>)"

text \<open>
  One pass of the \<open>while (true)\<close> loop of \<open>iterator()\<close> (lines 51 to 73), from the loop head to the next
  point where the generator stops running: the \<open>await\<close>, a \<open>yield\<close>, \<open>return\<close> or
  \<open>throw\<close>.
\<close>

definition iterator_loop :: "('a, 'e) async_queue \<Rightarrow> ('a, 'e) async_queue" where
  "iterator_loop s =
     (case q s of
        [] \<Rightarrow> s\<lparr>pending := True, gen := Awaiting\<rparr>
      | item # rest \<Rightarrow>
          (case item of
             DONE \<Rightarrow> s\<lparr>q := rest, gen := Completed, out := out s @ [Finished]\<rparr>
           | Failure err \<Rightarrow> s\<lparr>q := rest, gen := Completed, out := out s @ [Thrown err]\<rparr>
           | Item v \<Rightarrow> s\<lparr>q := rest, gen := Suspended, out := out s @ [Got v]\<rparr>))"

text \<open>
  The consumer asks for the next element. The \<open>for await\<close> loop asks only when its
  previous request is settled and the iteration is not over, that is when the generator
  is suspended; in any other state the loop is not at its pull.
\<close>

definition pull :: "('a, 'e) async_queue \<Rightarrow> ('a, 'e) async_queue" where
  "pull s = (case gen s of Suspended \<Rightarrow> iterator_loop s | _ \<Rightarrow> s)"

text \<open>
  The microtask that continues the generator after its promise was resolved:
  \<open>if (next.done) return; yield next.value; continue\<close>.
\<close>

definition tick :: "('a, 'e) async_queue \<Rightarrow> ('a, 'e) async_queue" where
  "tick s =
     (case gen s of
        Resumed r \<Rightarrow>
          (case r of
             IterDone \<Rightarrow> s\<lparr>gen := Completed, out := out s @ [Finished]\<rparr>
           | IterValue v \<Rightarrow> s\<lparr>gen := Suspended, out := out s @ [Got v]\<rparr>)
      | _ \<Rightarrow> s)"

text \<open>
  A schedule is any interleaving of the producer's calls with the consumer's pulls and
  the generator's continuations; JavaScript runs each of them to completion before the
  next.
\<close>

datatype ('a, 'e) op = Push 'a | Error 'e | End | Pull | Tick

fun step :: "('a, 'e) op \<Rightarrow> ('a, 'e) async_queue \<Rightarrow> ('a, 'e) async_queue" where
  "step (Push v) s = push v s"
| "step (Error err) s = error err s"
| "step End s = end_queue s"
| "step Pull s = pull s"
| "step Tick s = tick s"

definition run_ops :: "('a, 'e) op list \<Rightarrow> ('a, 'e) async_queue \<Rightarrow> ('a, 'e) async_queue" where
  "run_ops ops s = fold step ops s"


section \<open>The bridge: function run of sdk.ts\<close>

subsection \<open>Failures (errors.ts, and the classes the variant in codex-cli throws)\<close>

text \<open>
  The object the child process hands to the \<open>error\<close> listener: its \<open>name\<close> and its
  \<open>message\<close>.
\<close>

datatype child_error = ChildErr (err_name: string) (err_message: string)

text \<open>
  \<open>UserAbortError(message)\<close>, \<open>AgentProcessError(message, code?)\<close> and
  \<open>AgentSpawnError(message, cause?)\<close> of errors.ts; \<open>AbortError\<close> and the plain
  \<open>Error\<close> of the variant in codex-cli.
\<close>

datatype failure =
    UserAbortError string
  | AgentProcessError string "int option"
  | AgentSpawnError string child_error
  | AbortError string
  | PlainError string

text \<open>
  Template literals print an exit code in decimal and \<open>null\<close> as the word \<open>null\<close>.
\<close>

definition digit_char :: "nat \<Rightarrow> char" where
  "digit_char n = ''0123456789'' ! n"

fun show_nat :: "nat \<Rightarrow> string" where
  "show_nat n =
     (if n < 10 then [digit_char n] else show_nat (n div 10) @ [digit_char (n mod 10)])"

definition show_int :: "int \<Rightarrow> string" where
  "show_int i = (if i < 0 then CHR ''-'' # show_nat (nat (- i)) else show_nat (nat i))"

fun show_code :: "int option \<Rightarrow> string" where
  "show_code None = ''null''"
| "show_code (Some i) = show_int i"

subsection \<open>The line framer (the \<open>data\<close> listener of stdout)\<close>

text \<open>
  \<open>buffer.split("\n")\<close> (line 137): the segments between the newlines, at least one.
  Text is the decoded text of the chunks, a list of characters; the framing looks at
  nothing but the newline.
\<close>

fun split_nl :: "string \<Rightarrow> string list" where
  "split_nl [] = [[]]"
| "split_nl (c # cs) =
     (if c = CHR 0x0A then [] # split_nl cs
      else (c # hd (split_nl cs)) # tl (split_nl cs))"

text \<open>
  \<open>!line.trim()\<close>: the line is empty once white space and line terminators are
  trimmed, so all its characters are white space (those below 256 of JavaScript's).
\<close>

definition is_space :: "char \<Rightarrow> bool" where
  "is_space c = (c \<in> set [CHR 0x09, CHR 0x0A, CHR 0x0B, CHR 0x0C, CHR 0x0D, CHR 0x20, CHR 0xA0])"

definition blank :: "string \<Rightarrow> bool" where
  "blank line = list_all is_space line"

text \<open>
  The state of one call of \<open>run\<close>: its queue, the \<open>buffer\<close> of the framer,
  \<open>abortController.signal.aborted\<close>, the state of \<open>closePromise\<close>, and whether the
  reaction of \<open>forward\<close> to it has run (a promise reacts once).
\<close>

datatype settlement = Unsettled | Fulfilled | Rejected failure

record 'ev bridge =
  queue :: "('ev, failure) async_queue"
  buffer :: string
  aborted :: bool
  closePromise :: settlement
  forwarded :: bool

definition new_bridge :: "'ev bridge" where
  "new_bridge =
     \<lparr>queue = new_queue, buffer = [], aborted = False, closePromise = Unsettled,
      forwarded = False\<rparr>"

text \<open>
  The body of the loop over the complete lines (lines 139 to 150) and the listener (lines
  135 to 151); \<open>JSON.parse\<close> is a parameter, \<open>None\<close> where it throws.
\<close>

definition handle_line ::
  "(string \<Rightarrow> 'ev option) \<Rightarrow> string \<Rightarrow> ('ev, failure) async_queue \<Rightarrow> ('ev, failure) async_queue" where
  "handle_line parse line s =
     (if blank line then s
      else (case parse line of Some obj \<Rightarrow> push obj s | None \<Rightarrow> s))"

definition on_data :: "(string \<Rightarrow> 'ev option) \<Rightarrow> string \<Rightarrow> 'ev bridge \<Rightarrow> 'ev bridge" where
  "on_data parse data b =
     (let lines = split_nl (buffer b @ data)
      in b\<lparr>buffer := last lines,
            queue := fold (handle_line parse) (butlast lines) (queue b)\<rparr>)"

subsection \<open>Termination of the child process\<close>

text \<open>\<open>cleanup\<close> (lines 194 to 205): one more attempt on what the framer holds.\<close>

definition cleanup :: "(string \<Rightarrow> 'ev option) \<Rightarrow> 'ev bridge \<Rightarrow> 'ev bridge" where
  "cleanup parse b =
     (if \<not> blank (buffer b)
      then (case parse (buffer b) of
              Some obj \<Rightarrow> b\<lparr>queue := push obj (queue b)\<rparr>
            | None \<Rightarrow> b)
      else b)"

text \<open>\<open>resolve\<close> and \<open>reject\<close> of \<open>closePromise\<close>: a settled promise stays as it is.\<close>

definition resolve_close :: "'ev bridge \<Rightarrow> 'ev bridge" where
  "resolve_close b =
     (case closePromise b of Unsettled \<Rightarrow> b\<lparr>closePromise := Fulfilled\<rparr> | _ \<Rightarrow> b)"

definition reject_close :: "failure \<Rightarrow> 'ev bridge \<Rightarrow> 'ev bridge" where
  "reject_close err b =
     (case closePromise b of Unsettled \<Rightarrow> b\<lparr>closePromise := Rejected err\<rparr> | _ \<Rightarrow> b)"

text \<open>
  The \<open>close\<close> listener (lines 154 to 175): \<open>code\<close> and \<open>signal\<close> are \<open>null\<close> or a
  value; the signal is read only where it is known to be one of the two names.
\<close>

definition on_close ::
  "(string \<Rightarrow> 'ev option) \<Rightarrow> int option \<Rightarrow> string option \<Rightarrow> 'ev bridge \<Rightarrow> 'ev bridge" where
  "on_close parse code signal b0 =
     (let b = cleanup parse b0
      in if signal = Some ''SIGTERM'' \<or> signal = Some ''SIGKILL''
         then (if aborted b
               then reject_close (UserAbortError ''Codex was aborted by user'') b
               else reject_close
                      (AgentProcessError
                         (''Codex was terminated with signal '' @ the signal) code) b)
         else if code = Some 0 then resolve_close b
         else reject_close
                (AgentProcessError (''Codex exited with code '' @ show_code code) code) b)"

text \<open>The \<open>error\<close> listener (lines 177 to 191).\<close>

definition on_error :: "(string \<Rightarrow> 'ev option) \<Rightarrow> child_error \<Rightarrow> 'ev bridge \<Rightarrow> 'ev bridge" where
  "on_error parse err b0 =
     (let b = cleanup parse b0
      in if err_name err = ''AbortError''
         then (if aborted b
               then reject_close (UserAbortError ''Codex was aborted by user'') b
               else reject_close (UserAbortError ''Codex was aborted'') b)
         else reject_close
                (AgentSpawnError (''failed to run Codex: '' @ err_message err) err) b)"

text \<open>
  The reaction of \<open>forward\<close> (lines 210 to 217) once \<open>closePromise\<close> is settled:
  \<open>queue.end()\<close> after a fulfilment, \<open>queue.error(err); queue.end()\<close> in the \<open>catch\<close>
  after a rejection.
\<close>

definition forward :: "'ev bridge \<Rightarrow> 'ev bridge" where
  "forward b =
     (if forwarded b then b
      else (case closePromise b of
              Unsettled \<Rightarrow> b
            | Fulfilled \<Rightarrow> b\<lparr>queue := end_queue (queue b), forwarded := True\<rparr>
            | Rejected err \<Rightarrow>
                b\<lparr>queue := end_queue (error err (queue b)), forwarded := True\<rparr>))"

text \<open>
  What happens during one call of \<open>run\<close>, each run to completion: a chunk of stdout, the
  \<open>close\<close> and \<open>error\<close> events of the child, the caller aborting, the reaction of
  \<open>forward\<close>, the caller asking for the next event (which the \<open>for await\<close> loop passes
  to the queue), and the continuation of the queue's generator. The \<open>catch\<close> makes
  \<open>forward\<close> fulfil always, so \<open>await forward\<close> throws nothing and the caller sees what
  the loop over the queue sees: the log \<open>out\<close> of the queue. The body of \<open>run\<close> starts
  at the caller's first request, which spawns the child and reaches the wait on the empty
  queue in one turn: the events of a real call begin with \<open>Next\<close>.
\<close>

datatype event =
    Stdout string
  | Close "int option" "string option"
  | ChildError child_error
  | Abort
  | Forward
  | Next
  | Microtask

fun run_step :: "(string \<Rightarrow> 'ev option) \<Rightarrow> event \<Rightarrow> 'ev bridge \<Rightarrow> 'ev bridge" where
  "run_step parse (Stdout data) b = on_data parse data b"
| "run_step parse (Close code signal) b = on_close parse code signal b"
| "run_step parse (ChildError err) b = on_error parse err b"
| "run_step parse Abort b = b\<lparr>aborted := True\<rparr>"
| "run_step parse Forward b = forward b"
| "run_step parse Next b = b\<lparr>queue := pull (queue b)\<rparr>"
| "run_step parse Microtask b = b\<lparr>queue := tick (queue b)\<rparr>"

definition run :: "(string \<Rightarrow> 'ev option) \<Rightarrow> event list \<Rightarrow> 'ev bridge \<Rightarrow> 'ev bridge" where
  "run parse evs b = fold (run_step parse) evs b"


section \<open>The variant in codex-cli: class AsyncQueue and function query\<close>

text \<open>
  The second copy of the bridge (README.md of codex-cli, lines 269 to 521) declares its
  own \<open>AsyncQueue\<close> (lines 279 to 342) and its own listeners (lines 441 to 505). Each
  definition below is translated from that copy; the state it works on has the same
  fields.
\<close>

definition cli_resolve :: "'a iter_result \<Rightarrow> ('a, 'e) async_queue \<Rightarrow> ('a, 'e) async_queue" where
  "cli_resolve r s = (case gen s of Awaiting \<Rightarrow> s\<lparr>gen := Resumed r\<rparr> | _ \<Rightarrow> s)"

definition cli_push :: "'a \<Rightarrow> ('a, 'e) async_queue \<Rightarrow> ('a, 'e) async_queue" where
  "cli_push v s =
     (if pending s then cli_resolve (IterValue v) (s\<lparr>pending := False\<rparr>)
      else s\<lparr>q := q s @ [Item v]\<rparr>)"

definition cli_error :: "'e \<Rightarrow> ('a, 'e) async_queue \<Rightarrow> ('a, 'e) async_queue" where
  "cli_error err s =
     (if pending s
      then cli_resolve IterDone (s\<lparr>pending := False, uncaught := uncaught s @ [err]\<rparr>)
      else s\<lparr>q := q s @ [Failure err]\<rparr>)"

definition cli_end_queue :: "('a, 'e) async_queue \<Rightarrow> ('a, 'e) async_queue" where
  "cli_end_queue s =
     (if pending s then cli_resolve IterDone (s\<lparr>pending := False\<rparr>)
      else s\<lparr>q := q s @ [DONE]\<rparr>)"

definition cli_iterator_loop :: "('a, 'e) async_queue \<Rightarrow> ('a, 'e) async_queue" where
  "cli_iterator_loop s =
     (case q s of
        [] \<Rightarrow> s\<lparr>pending := True, gen := Awaiting\<rparr>
      | item # rest \<Rightarrow>
          (case item of
             DONE \<Rightarrow> s\<lparr>q := rest, gen := Completed, out := out s @ [Finished]\<rparr>
           | Failure err \<Rightarrow> s\<lparr>q := rest, gen := Completed, out := out s @ [Thrown err]\<rparr>
           | Item v \<Rightarrow> s\<lparr>q := rest, gen := Suspended, out := out s @ [Got v]\<rparr>))"

definition cli_pull :: "('a, 'e) async_queue \<Rightarrow> ('a, 'e) async_queue" where
  "cli_pull s = (case gen s of Suspended \<Rightarrow> cli_iterator_loop s | _ \<Rightarrow> s)"

definition cli_tick :: "('a, 'e) async_queue \<Rightarrow> ('a, 'e) async_queue" where
  "cli_tick s =
     (case gen s of
        Resumed r \<Rightarrow>
          (case r of
             IterDone \<Rightarrow> s\<lparr>gen := Completed, out := out s @ [Finished]\<rparr>
           | IterValue v \<Rightarrow> s\<lparr>gen := Suspended, out := out s @ [Got v]\<rparr>)
      | _ \<Rightarrow> s)"

fun cli_step :: "('a, 'e) op \<Rightarrow> ('a, 'e) async_queue \<Rightarrow> ('a, 'e) async_queue" where
  "cli_step (Push v) s = cli_push v s"
| "cli_step (Error err) s = cli_error err s"
| "cli_step End s = cli_end_queue s"
| "cli_step Pull s = cli_pull s"
| "cli_step Tick s = cli_tick s"

definition cli_run_ops :: "('a, 'e) op list \<Rightarrow> ('a, 'e) async_queue \<Rightarrow> ('a, 'e) async_queue" where
  "cli_run_ops ops s = fold cli_step ops s"

definition cli_handle_line ::
  "(string \<Rightarrow> 'ev option) \<Rightarrow> string \<Rightarrow> ('ev, failure) async_queue \<Rightarrow> ('ev, failure) async_queue" where
  "cli_handle_line parse line s =
     (if blank line then s
      else (case parse line of Some obj \<Rightarrow> cli_push obj s | None \<Rightarrow> s))"

definition cli_on_data :: "(string \<Rightarrow> 'ev option) \<Rightarrow> string \<Rightarrow> 'ev bridge \<Rightarrow> 'ev bridge" where
  "cli_on_data parse data b =
     (let lines = split_nl (buffer b @ data)
      in b\<lparr>buffer := last lines,
            queue := fold (cli_handle_line parse) (butlast lines) (queue b)\<rparr>)"

definition cli_cleanup :: "(string \<Rightarrow> 'ev option) \<Rightarrow> 'ev bridge \<Rightarrow> 'ev bridge" where
  "cli_cleanup parse b =
     (if \<not> blank (buffer b)
      then (case parse (buffer b) of
              Some obj \<Rightarrow> b\<lparr>queue := cli_push obj (queue b)\<rparr>
            | None \<Rightarrow> b)
      else b)"

text \<open>
  The \<open>close\<close> listener of \<open>query\<close> (lines 460 to 470) takes the exit code only. After
  the rejection for an abort it goes on to the test of the code; the promise keeps its
  first settlement. Then its \<open>error\<close> listener (lines 472 to 479).
\<close>

definition cli_on_close ::
  "(string \<Rightarrow> 'ev option) \<Rightarrow> int option \<Rightarrow> 'ev bridge \<Rightarrow> 'ev bridge" where
  "cli_on_close parse code b0 =
     (let b = cli_cleanup parse b0;
          b' = (if aborted b
                then reject_close (AbortError ''Codex process aborted by user'') b
                else b)
      in if code \<noteq> Some 0
         then reject_close (PlainError (''Codex process exited with code '' @ show_code code)) b'
         else resolve_close b')"

definition cli_on_error :: "(string \<Rightarrow> 'ev option) \<Rightarrow> child_error \<Rightarrow> 'ev bridge \<Rightarrow> 'ev bridge" where
  "cli_on_error parse err b0 =
     (let b = cli_cleanup parse b0
      in if aborted b
         then reject_close (AbortError ''Codex process aborted by user'') b
         else reject_close
                (PlainError (''Codex process exited with error: '' @ err_message err)) b)"

definition cli_forward :: "'ev bridge \<Rightarrow> 'ev bridge" where
  "cli_forward b =
     (if forwarded b then b
      else (case closePromise b of
              Unsettled \<Rightarrow> b
            | Fulfilled \<Rightarrow> b\<lparr>queue := cli_end_queue (queue b), forwarded := True\<rparr>
            | Rejected err \<Rightarrow>
                b\<lparr>queue := cli_end_queue (cli_error err (queue b)), forwarded := True\<rparr>))"

fun query_step :: "(string \<Rightarrow> 'ev option) \<Rightarrow> event \<Rightarrow> 'ev bridge \<Rightarrow> 'ev bridge" where
  "query_step parse (Stdout data) b = cli_on_data parse data b"
| "query_step parse (Close code signal) b = cli_on_close parse code b"
| "query_step parse (ChildError err) b = cli_on_error parse err b"
| "query_step parse Abort b = b\<lparr>aborted := True\<rparr>"
| "query_step parse Forward b = cli_forward b"
| "query_step parse Next b = b\<lparr>queue := cli_pull (queue b)\<rparr>"
| "query_step parse Microtask b = b\<lparr>queue := cli_tick (queue b)\<rparr>"

definition query :: "(string \<Rightarrow> 'ev option) \<Rightarrow> event list \<Rightarrow> 'ev bridge \<Rightarrow> 'ev bridge" where
  "query parse evs b = fold (query_step parse) evs b"


section \<open>Notions used to state and prove the properties\<close>

text \<open>
  The slots the consumer has still to meet: the settled result its generator has not yet
  taken (a hand-off under way) and the buffer. Together with what it has seen, they are
  the history of what entered the queue.
\<close>

fun slot_of_result :: "'a iter_result \<Rightarrow> ('a, 'e) slot" where
  "slot_of_result (IterValue v) = Item v"
| "slot_of_result IterDone = DONE"

fun obs_of_slot :: "('a, 'e) slot \<Rightarrow> ('a, 'e) obs" where
  "obs_of_slot (Item v) = Got v"
| "obs_of_slot (Failure err) = Thrown err"
| "obs_of_slot DONE = Finished"

fun slot_of_obs :: "('a, 'e) obs \<Rightarrow> ('a, 'e) slot" where
  "slot_of_obs (Got v) = Item v"
| "slot_of_obs (Thrown err) = Failure err"
| "slot_of_obs Finished = DONE"

fun is_item :: "('a, 'e) slot \<Rightarrow> bool" where
  "is_item (Item v) = True"
| "is_item (Failure err) = False"
| "is_item DONE = False"

fun is_got :: "('a, 'e) obs \<Rightarrow> bool" where
  "is_got (Got v) = True"
| "is_got (Thrown err) = False"
| "is_got Finished = False"

definition pipeline :: "('a, 'e) async_queue \<Rightarrow> ('a, 'e) slot list" where
  "pipeline s = (case gen s of Resumed r \<Rightarrow> [slot_of_result r] | _ \<Rightarrow> []) @ q s"

definition hist :: "('a, 'e) async_queue \<Rightarrow> ('a, 'e) slot list" where
  "hist s = map slot_of_obs (out s) @ pipeline s"

text \<open>
  The stored resolver is the one of the generator's wait, and it is stored over an empty
  buffer only.
\<close>

definition wf_queue :: "('a, 'e) async_queue \<Rightarrow> bool" where
  "wf_queue s = ((pending s = (gen s = Awaiting)) \<and> (if pending s then q s = [] else True))"

text \<open>
  The log of a running iteration holds values only; the log of an iteration that is over
  ends with the one observation that ended it.
\<close>

definition shape :: "('a, 'e) async_queue \<Rightarrow> bool" where
  "shape s =
     (if gen s = Completed
      then out s \<noteq> [] \<and> list_all is_got (butlast (out s)) \<and> \<not> is_got (last (out s))
      else list_all is_got (out s))"

text \<open>What a call of the producer makes enter the queue in a state.\<close>

fun entered :: "('a, 'e) op \<Rightarrow> ('a, 'e) async_queue \<Rightarrow> ('a, 'e) slot list" where
  "entered (Push v) s = [Item v]"
| "entered (Error err) s = (if pending s then [DONE] else [Failure err])"
| "entered End s = [DONE]"
| "entered Pull s = []"
| "entered Tick s = []"

fun entered_run :: "('a, 'e) op list \<Rightarrow> ('a, 'e) async_queue \<Rightarrow> ('a, 'e) slot list" where
  "entered_run [] s = []"
| "entered_run (x # xs) s = entered x s @ entered_run xs (step x s)"

text \<open>
  The calls of the producer in a schedule; whether \<open>error\<close> or \<open>end\<close> was called; the
  values pushed before the first such call; the values in a log.
\<close>

fun is_producer :: "('a, 'e) op \<Rightarrow> bool" where
  "is_producer (Push v) = True"
| "is_producer (Error err) = True"
| "is_producer End = True"
| "is_producer Pull = False"
| "is_producer Tick = False"

fun terminated :: "('a, 'e) op list \<Rightarrow> bool" where
  "terminated [] = False"
| "terminated (Error err # xs) = True"
| "terminated (End # xs) = True"
| "terminated (x # xs) = terminated xs"

fun live_pushes :: "('a, 'e) op list \<Rightarrow> 'a list" where
  "live_pushes [] = []"
| "live_pushes (Push v # xs) = v # live_pushes xs"
| "live_pushes (Error err # xs) = []"
| "live_pushes (End # xs) = []"
| "live_pushes (x # xs) = live_pushes xs"

fun delivered :: "('a, 'e) obs list \<Rightarrow> 'a list" where
  "delivered [] = []"
| "delivered (Got v # xs) = v # delivered xs"
| "delivered (x # xs) = delivered xs"

text \<open>
  The consumer going on alone for \<open>n\<close> rounds: the continuation of its generator, if
  one is due, and its next pull.
\<close>

fun consume :: "nat \<Rightarrow> ('a, 'e) async_queue \<Rightarrow> ('a, 'e) async_queue" where
  "consume 0 s = s"
| "consume (Suc n) s = consume n (pull (tick s))"

text \<open>
  The iteration is decided: it is over, or a slot other than a value waits in front of
  the consumer.
\<close>

definition decided :: "('a, 'e) async_queue \<Rightarrow> bool" where
  "decided s = (gen s = Completed \<or> \<not> list_all is_item (pipeline s))"

text \<open>
  The attempt the framer makes on a line: none on a blank line, \<open>JSON.parse\<close> on any
  other.
\<close>

definition parse_line :: "(string \<Rightarrow> 'ev option) \<Rightarrow> string \<Rightarrow> 'ev option" where
  "parse_line parse line = (if blank line then None else parse line)"

text \<open>
  The calls on the queue that the reaction of \<open>run\<close> to an event makes in a state, and
  those of a whole sequence of events.
\<close>

fun emitted :: "(string \<Rightarrow> 'ev option) \<Rightarrow> event \<Rightarrow> 'ev bridge \<Rightarrow> ('ev, failure) op list" where
  "emitted parse (Stdout data) b =
     map Push (List.map_filter (parse_line parse) (butlast (split_nl (buffer b @ data))))"
| "emitted parse (Close code signal) b =
     map Push (List.map_filter (parse_line parse) [buffer b])"
| "emitted parse (ChildError err) b =
     map Push (List.map_filter (parse_line parse) [buffer b])"
| "emitted parse Abort b = []"
| "emitted parse Forward b =
     (if forwarded b then []
      else (case closePromise b of
              Unsettled \<Rightarrow> []
            | Fulfilled \<Rightarrow> [End]
            | Rejected err \<Rightarrow> [Error err, End]))"
| "emitted parse Next b = [Pull]"
| "emitted parse Microtask b = [Tick]"

fun emitted_run ::
  "(string \<Rightarrow> 'ev option) \<Rightarrow> event list \<Rightarrow> 'ev bridge \<Rightarrow> ('ev, failure) op list" where
  "emitted_run parse [] b = []"
| "emitted_run parse (ev # evs) b = emitted parse ev b @ emitted_run parse evs (run_step parse ev b)"

fun is_termination :: "event \<Rightarrow> bool" where
  "is_termination (Close code signal) = True"
| "is_termination (ChildError err) = True"
| "is_termination ev = False"

text \<open>The same for \<open>query\<close>, whose listeners settle the promise their own way.\<close>

fun query_emitted_run ::
  "(string \<Rightarrow> 'ev option) \<Rightarrow> event list \<Rightarrow> 'ev bridge \<Rightarrow> ('ev, failure) op list" where
  "query_emitted_run parse [] b = []"
| "query_emitted_run parse (ev # evs) b =
     emitted parse ev b @ query_emitted_run parse evs (query_step parse ev b)"

section \<open>Properties of the event queue\<close>

subsection \<open>Invariants and the history of a run\<close>

lemmas queue_defs = push_def error_def end_queue_def pull_def tick_def resolve_def
  iterator_loop_def

lemma wf_new: "wf_queue new_queue"
  by (simp add: wf_queue_def new_queue_def)

lemma wf_step: "wf_queue s \<Longrightarrow> wf_queue (step x s)"
  by (cases x; cases "gen s"; cases "q s")
     (auto simp: wf_queue_def queue_defs split: slot.splits iter_result.splits if_splits)

lemma wf_run: "wf_queue s \<Longrightarrow> wf_queue (run_ops ops s)"
  unfolding run_ops_def by (induction ops arbitrary: s) (auto simp: wf_step)

lemma hist_step: "wf_queue s \<Longrightarrow> hist (step x s) = hist s @ entered x s"
  by (cases x; cases "gen s"; cases "q s")
     (auto simp: wf_queue_def hist_def pipeline_def queue_defs
        split: slot.splits iter_result.splits if_splits)

lemma run_ops_Nil [simp]: "run_ops [] s = s"
  by (simp add: run_ops_def)

lemma run_ops_Cons [simp]: "run_ops (x # xs) s = run_ops xs (step x s)"
  by (simp add: run_ops_def)

lemma run_ops_append: "run_ops (xs @ ys) s = run_ops ys (run_ops xs s)"
  by (simp add: run_ops_def)

lemma hist_run: "wf_queue s \<Longrightarrow> hist (run_ops ops s) = hist s @ entered_run ops s"
  by (induction ops arbitrary: s) (auto simp: hist_step wf_step)

lemma entered_run_append:
  "entered_run (xs @ ys) s = entered_run xs s @ entered_run ys (run_ops xs s)"
  by (induction xs arbitrary: s) auto

lemma shape_new: "shape (new_queue :: ('a, 'e) async_queue)"
  by (simp add: shape_def new_queue_def)

lemma shape_step: "wf_queue s \<Longrightarrow> shape s \<Longrightarrow> shape (step x s)"
  by (cases x; cases "gen s"; cases "q s")
     (auto simp: wf_queue_def shape_def queue_defs
        split: slot.splits iter_result.splits if_splits)

lemma shape_run: "wf_queue s \<Longrightarrow> shape s \<Longrightarrow> shape (run_ops ops s)"
  by (induction ops arbitrary: s) (auto simp: shape_step wf_step)

lemma hist_new: "hist (new_queue :: ('a, 'e) async_queue) = []"
  by (simp add: hist_def pipeline_def new_queue_def)

lemma entered_run_live:
  "\<exists>rest. entered_run ops s = map Item (live_pushes ops) @ rest \<and>
     (rest = [] \<or> \<not> is_item (hd rest)) \<and> (terminated ops \<longleftrightarrow> rest \<noteq> [])"
proof (induction ops arbitrary: s)
  case Nil
  then show ?case by simp
next
  case (Cons x xs)
  from Cons [of "step x s"] obtain rest where
    r: "entered_run xs (step x s) = map Item (live_pushes xs) @ rest"
       "rest = [] \<or> \<not> is_item (hd rest)" "terminated xs \<longleftrightarrow> rest \<noteq> []"
    by blast
  show ?case
  proof (cases x)
    case (Push v) with r show ?thesis by auto
  next
    case (Error e)
    then show ?thesis by auto
  next
    case End then show ?thesis by auto
  next
    case Pull with r show ?thesis by auto
  next
    case Tick with r show ?thesis by auto
  qed
qed


lemma items_prefix:
  "map Item ds @ p = map Item lp @ rest \<Longrightarrow> rest = [] \<or> \<not> is_item (hd rest) \<Longrightarrow>
   \<exists>xs. lp = ds @ xs \<and> p = map Item xs @ rest"
proof (induction ds arbitrary: lp)
  case Nil
  then show ?case by simp
next
  case (Cons d ds)
  show ?case
  proof (cases lp)
    case Nil
    with Cons.prems show ?thesis by (cases rest) auto
  next
    case (Cons l lp')
    with Cons.prems Cons.IH [of lp'] show ?thesis by auto
  qed
qed

lemma items_terminal:
  "map Item ds @ t # p = map Item lp @ rest \<Longrightarrow> \<not> is_item t \<Longrightarrow>
   rest = [] \<or> \<not> is_item (hd rest) \<Longrightarrow> ds = lp \<and> rest = t # p"
proof -
  assume a: "map Item ds @ t # p = map Item lp @ rest" and t: "\<not> is_item t"
    and r: "rest = [] \<or> \<not> is_item (hd rest)"
  from items_prefix [OF a r] obtain xs where xs: "lp = ds @ xs" "t # p = map Item xs @ rest"
    by blast
  from xs(2) t have "xs = []" by (cases xs) auto
  with xs show ?thesis by simp
qed

lemma got_list: "list_all is_got xs \<Longrightarrow> \<exists>ds. xs = map Got ds"
proof (induction xs)
  case Nil
  then show ?case by simp
next
  case (Cons x xs)
  then obtain ds where "xs = map Got ds" by auto
  moreover from Cons.prems obtain v where "x = Got v" by (cases x) auto
  ultimately have "x # xs = map Got (v # ds)" by simp
  then show ?case by (rule exI)
qed

lemma running_log:
  assumes "shape s" and "gen s \<noteq> Completed"
  shows "\<exists>ds. out s = map Got ds \<and> hist s = map Item ds @ pipeline s"
proof -
  from assms have "list_all is_got (out s)" by (simp add: shape_def)
  then obtain ds where "out s = map Got ds" using got_list by blast
  then show ?thesis by (auto simp: hist_def)
qed

lemma completed_log:
  assumes "shape s" and "gen s = Completed"
  shows "\<exists>ds t. out s = map Got ds @ [obs_of_slot t] \<and> \<not> is_item t \<and>
           hist s = map Item ds @ t # pipeline s"
proof -
  from assms have ne: "out s \<noteq> []" and bl: "list_all is_got (butlast (out s))"
    and la: "\<not> is_got (last (out s))" by (simp_all add: shape_def)
  from bl obtain ds where ds: "butlast (out s) = map Got ds" using got_list by blast
  from ne have "out s = butlast (out s) @ [last (out s)]" by simp
  with ds have o: "out s = map Got ds @ [last (out s)]" by simp
  have "obs_of_slot (slot_of_obs (last (out s))) = last (out s)"
    by (cases "last (out s)") auto
  moreover from la have "\<not> is_item (slot_of_obs (last (out s)))"
    by (cases "last (out s)") auto
  moreover have "hist s = map Item ds @ slot_of_obs (last (out s)) # pipeline s"
    unfolding hist_def by (subst o) (simp add: comp_def)
  ultimately show ?thesis using o by metis
qed

lemma delivered_map_Got [simp]: "delivered (map Got ds) = ds"
  by (induction ds) auto

lemma delivered_append [simp]: "delivered (xs @ ys) = delivered xs @ delivered ys"
  by (induction xs rule: delivered.induct) auto

lemma delivered_terminal: "\<not> is_item t \<Longrightarrow> delivered [obs_of_slot t] = []"
  by (cases t) auto


lemma running_split:
  assumes "shape s" and "gen s \<noteq> Completed"
    and "hist s = map Item lp @ rest" and "rest = [] \<or> \<not> is_item (hd rest)"
  shows "\<exists>ds xs. out s = map Got ds \<and> lp = ds @ xs \<and> pipeline s = map Item xs @ rest"
proof -
  from running_log [OF assms(1,2)] obtain ds where
    ds: "out s = map Got ds" "hist s = map Item ds @ pipeline s" by blast
  from ds(2) assms(3) have "map Item ds @ pipeline s = map Item lp @ rest" by simp
  from items_prefix [OF this assms(4)] ds(1) show ?thesis by blast
qed

lemma completed_split:
  assumes "shape s" and "gen s = Completed"
    and "hist s = map Item lp @ rest" and "rest = [] \<or> \<not> is_item (hd rest)"
  shows "rest \<noteq> [] \<and> out s = map Got lp @ [obs_of_slot (hd rest)]"
proof -
  from completed_log [OF assms(1,2)] obtain ds t where
    dt: "out s = map Got ds @ [obs_of_slot t]" "\<not> is_item t"
        "hist s = map Item ds @ t # pipeline s" by blast
  from dt(3) assms(3) have "map Item ds @ t # pipeline s = map Item lp @ rest" by simp
  from items_terminal [OF this dt(2) assms(4)] dt(1) show ?thesis by auto
qed

lemma reach_wf: "wf_queue (run_ops ops new_queue)"
  by (simp add: wf_run wf_new)

lemma reach_shape: "shape (run_ops ops new_queue)"
  by (simp add: shape_run wf_new shape_new)

lemma reach_hist: "hist (run_ops ops new_queue) = entered_run ops new_queue"
  by (simp add: hist_run wf_new hist_new)

text \<open>
  Claim C8. In every state that any interleaving of \<open>push\<close>, \<open>error\<close>, \<open>end\<close>, the
  pulls of the single consumer and the continuations of its generator reaches from a fresh
  queue, a stored resolver means that the buffer \<open>q\<close> is empty; the stored resolver is
  the one of the generator's single wait, and a waiting generator has its resolver stored.
\<close>

theorem pending_only_over_empty_buffer:
  "(pending (run_ops ops new_queue) \<longrightarrow>
      q (run_ops ops new_queue) = [] \<and> gen (run_ops ops new_queue) = Awaiting) \<and>
   (gen (run_ops ops new_queue) = Awaiting \<longrightarrow> pending (run_ops ops new_queue))"
  using reach_wf [of ops] by (auto simp: wf_queue_def split: if_splits)

theorem pending_only_over_empty_buffer_witness:
  "pending (run_ops [Push (1::nat), Pull, Pull] (new_queue :: (nat, unit) async_queue)) \<and>
   q (run_ops [Push (1::nat), Pull, Pull] (new_queue :: (nat, unit) async_queue)) = [] \<and>
   gen (run_ops [Push (1::nat), Pull, Pull] (new_queue :: (nat, unit) async_queue)) = Awaiting"
proof -
  have p: "pending (run_ops [Push (1::nat), Pull, Pull] (new_queue :: (nat, unit) async_queue))"
    by (simp add: run_ops_def new_queue_def queue_defs)
  with pending_only_over_empty_buffer [of "[Push (1::nat), Pull, Pull]"] show ?thesis
    by blast
qed

text \<open>
  Claim C9. Whatever the schedule, the values the consumer has received are an initial
  part of the values pushed before the first call of \<open>error\<close> or \<open>end\<close>, in the order
  of the pushes: nothing pushed after that call is ever delivered.
\<close>

theorem delivered_before_terminal_in_order:
  "prefix (delivered (out (run_ops ops new_queue))) (live_pushes ops)"
proof -
  let ?s = "run_ops ops new_queue"
  from entered_run_live [of ops new_queue] obtain rest where
    r: "entered_run ops new_queue = map Item (live_pushes ops) @ rest"
       "rest = [] \<or> \<not> is_item (hd rest)" by blast
  then have h: "hist ?s = map Item (live_pushes ops) @ rest" by (simp add: reach_hist)
  show ?thesis
  proof (cases "gen ?s = Completed")
    case True
    from completed_split [OF reach_shape True h r(2)]
    have "rest \<noteq> []" and o: "out ?s = map Got (live_pushes ops) @ [obs_of_slot (hd rest)]"
      by simp_all
    with r(2) have "\<not> is_item (hd rest)" by simp
    with o show ?thesis by (simp add: delivered_terminal)
  next
    case False
    from running_split [OF reach_shape False h r(2)] show ?thesis by auto
  qed
qed

theorem delivered_before_terminal_in_order_witness:
  "delivered (out (run_ops [Push (1::nat), Pull, Pull, Push 2, End, Push 3, Tick, Pull, Pull]
      (new_queue :: (nat, unit) async_queue))) = [1, 2] \<and>
   live_pushes [Push (1::nat), Pull, Pull, Push 2, End, Push 3, Tick, Pull, Pull :: (nat, unit) op]
     = [1, 2]"
  using delivered_before_terminal_in_order
    [of "[Push (1::nat), Pull, Pull, Push 2, End, Push 3, Tick, Pull, Pull :: (nat, unit) op]"]
  by (simp add: run_ops_def new_queue_def queue_defs)

subsection \<open>A consumer that goes on pulling\<close>

lemma consume_completed: "gen s = Completed \<Longrightarrow> consume n s = s"
  by (induction n) (auto simp: pull_def tick_def)

lemma round_progress:
  assumes "wf_queue s" and "gen s \<noteq> Completed"
    and "pipeline s = map Item xs @ t # junk" and "\<not> is_item t"
  shows "(gen (pull (tick s)) = Completed \<and>
            out (pull (tick s)) = out s @ map Got xs @ [obs_of_slot t]) \<or>
         (gen (pull (tick s)) \<noteq> Completed \<and> wf_queue (pull (tick s)) \<and>
            (\<exists>ys zs. xs = ys @ zs \<and> ys \<noteq> [] \<and> pipeline (pull (tick s)) = map Item zs @ t # junk \<and>
               out (pull (tick s)) = out s @ map Got ys))"
proof -
  have wf: "wf_queue (pull (tick s))"
    using wf_step [of "step Tick s" Pull] wf_step [of s Tick] assms(1) by simp
  show ?thesis
  proof (cases "gen s")
    case Suspended
    with assms have qs: "q s = map Item xs @ t # junk" by (simp add: pipeline_def)
    show ?thesis
    proof (cases xs)
      case Nil
      with qs Suspended assms(4) show ?thesis
        by (cases t) (auto simp: queue_defs)
    next
      case (Cons x xs')
      with qs Suspended wf have "gen (pull (tick s)) \<noteq> Completed \<and> wf_queue (pull (tick s)) \<and>
        xs = [x] @ xs' \<and> pipeline (pull (tick s)) = map Item xs' @ t # junk \<and>
        out (pull (tick s)) = out s @ map Got [x]"
        by (auto simp: queue_defs pipeline_def)
      then show ?thesis by blast
    qed
  next
    case Awaiting
    with assms show ?thesis by (auto simp: wf_queue_def pipeline_def split: if_splits)
  next
    case (Resumed r)
    with assms have ps: "slot_of_result r # q s = map Item xs @ t # junk"
      by (simp add: pipeline_def)
    show ?thesis
    proof (cases r)
      case IterDone
      with ps assms(4) have "xs = []" "t = DONE" by (cases xs; auto)+
      with Resumed IterDone show ?thesis by (auto simp: queue_defs)
    next
      case (IterValue v)
      with ps assms(4) obtain xs' where xs': "xs = v # xs'" "q s = map Item xs' @ t # junk"
        by (cases xs) auto
      show ?thesis
      proof (cases xs')
        case Nil
        with xs' Resumed IterValue assms(4) show ?thesis
          by (cases t) (auto simp: queue_defs)
      next
        case (Cons y ys)
        with xs' Resumed IterValue wf have "gen (pull (tick s)) \<noteq> Completed \<and>
          wf_queue (pull (tick s)) \<and>
          xs = [v, y] @ ys \<and> pipeline (pull (tick s)) = map Item ys @ t # junk \<and>
          out (pull (tick s)) = out s @ map Got [v, y]"
          by (auto simp: queue_defs pipeline_def)
        then show ?thesis by blast
      qed
    qed
  next
    case Completed
    with assms show ?thesis by simp
  qed
qed

lemma consume_drains:
  "wf_queue s \<Longrightarrow> gen s \<noteq> Completed \<Longrightarrow> pipeline s = map Item xs @ t # junk \<Longrightarrow>
   \<not> is_item t \<Longrightarrow> length xs < n \<Longrightarrow>
   gen (consume n s) = Completed \<and> out (consume n s) = out s @ map Got xs @ [obs_of_slot t]"
proof (induction n arbitrary: s xs)
  case 0
  then show ?case by simp
next
  case (Suc n)
  from round_progress [OF Suc.prems(1-4)] show ?case
  proof
    assume "gen (pull (tick s)) = Completed \<and>
      out (pull (tick s)) = out s @ map Got xs @ [obs_of_slot t]"
    then show ?thesis by (simp add: consume_completed)
  next
    assume "gen (pull (tick s)) \<noteq> Completed \<and> wf_queue (pull (tick s)) \<and>
      (\<exists>ys zs. xs = ys @ zs \<and> ys \<noteq> [] \<and> pipeline (pull (tick s)) = map Item zs @ t # junk \<and>
         out (pull (tick s)) = out s @ map Got ys)"
    then obtain ys zs where
      a: "gen (pull (tick s)) \<noteq> Completed" "wf_queue (pull (tick s))" "xs = ys @ zs"
         "ys \<noteq> []" "pipeline (pull (tick s)) = map Item zs @ t # junk"
         "out (pull (tick s)) = out s @ map Got ys" by blast
    from a(3,4) Suc.prems(5) have "length zs < n" by (cases ys) auto
    from Suc.IH [OF a(2) a(1) a(5) Suc.prems(4) this] a(3,6) show ?thesis by simp
  qed
qed

lemma log_of_history:
  assumes wf: "wf_queue s" and sh: "shape s"
    and h: "hist s = map Item lp @ t # junk" and t: "\<not> is_item t" and n: "length lp < n"
  shows "prefix (out s) (map Got lp @ [obs_of_slot t]) \<and>
         (gen s = Completed \<longrightarrow> out s = map Got lp @ [obs_of_slot t]) \<and>
         gen (consume n s) = Completed \<and>
         out (consume n s) = map Got lp @ [obs_of_slot t]"
proof (cases "gen s = Completed")
  case True
  from t have r: "t # junk = [] \<or> \<not> is_item (hd (t # junk))" by simp
  from completed_split [OF sh True h r] have "out s = map Got lp @ [obs_of_slot t]" by simp
  with True show ?thesis by (simp add: consume_completed)
next
  case False
  from t have r: "t # junk = [] \<or> \<not> is_item (hd (t # junk))" by simp
  from running_split [OF sh False h r] obtain ds xs where
    d: "out s = map Got ds" "lp = ds @ xs" "pipeline s = map Item xs @ t # junk" by blast
  from d(2) n have "length xs < n" by simp
  from consume_drains [OF wf False d(3) t this] d(1,2) False show ?thesis by simp
qed

lemma entered_run_consumer_only:
  "filter is_producer sched = [] \<Longrightarrow> entered_run sched s = []"
proof (induction sched arbitrary: s)
  case Nil
  then show ?case by simp
next
  case (Cons x xs)
  then show ?case by (cases x) (auto split: if_splits)
qed

lemma entered_run_pushes_end:
  "filter is_producer sched = map Push ps @ [End] \<Longrightarrow>
   entered_run sched s = map Item ps @ [DONE]"
proof (induction sched arbitrary: s ps)
  case Nil
  then show ?case by simp
next
  case (Cons x xs)
  show ?case
  proof (cases x)
    case (Push v)
    with Cons.prems obtain ps' where "ps = v # ps'" "filter is_producer xs = map Push ps' @ [End]"
      by (cases ps) auto
    with Cons.IH [of ps' "step x s"] Push show ?thesis by simp
  next
    case (Error e)
    with Cons.prems show ?thesis by (cases ps) auto
  next
    case End
    with Cons.prems have "ps = []" "filter is_producer xs = []" by (cases ps; auto)+
    with End show ?thesis by (simp add: entered_run_consumer_only)
  next
    case Pull
    with Cons.prems Cons.IH [of ps "step x s"] show ?thesis by simp
  next
    case Tick
    with Cons.prems Cons.IH [of ps "step x s"] show ?thesis by simp
  qed
qed

lemma uncaught_step:
  "uncaught (step x s) =
     uncaught s @ (case x of Error e \<Rightarrow> if pending s then [e] else [] | _ \<Rightarrow> [])"
  by (cases x; cases "gen s"; cases "q s")
     (auto simp: queue_defs split: slot.splits iter_result.splits)

lemma uncaught_no_error:
  "\<forall>x \<in> set sched. \<forall>e. x \<noteq> Error e \<Longrightarrow> uncaught (run_ops sched s) = uncaught s"
proof (induction sched arbitrary: s)
  case Nil
  then show ?case by simp
next
  case (Cons x xs)
  have "uncaught (step x s) = uncaught s"
    using Cons.prems uncaught_step [of x s] by (cases x) auto
  with Cons show ?case by simp
qed

lemma uncaught_consume: "uncaught (consume n s) = uncaught s"
proof (induction n arbitrary: s)
  case 0
  then show ?case by simp
next
  case (Suc n)
  have "uncaught (pull (tick s)) = uncaught s"
    using uncaught_step [of Pull "tick s"] uncaught_step [of Tick s] by simp
  with Suc show ?case by simp
qed

lemma pushes_end_no_error:
  assumes "filter is_producer sched = map Push ps @ [End]"
  shows "\<forall>x \<in> set sched. \<forall>e. x \<noteq> Error e"
proof (intro ballI allI notI)
  fix x e assume "x \<in> set sched" "x = Error e"
  then have "Error e \<in> set (filter is_producer sched)" by simp
  with assms show False by auto
qed

text \<open>
  Claim C3. When the producer's calls are the pushes of \<open>P1 ... Pn\<close> followed by one
  \<open>end()\<close>, however they interleave with the consumer's pulls: at every moment the
  consumer's log is an initial part of \<open>P1 ... Pn\<close> followed by normal completion; when
  its iteration is over the log is exactly that; and a consumer that goes on pulling gets
  there, with nothing thrown in the iteration or outside it.
\<close>

theorem pushes_then_end_delivered:
  assumes "filter is_producer sched = map Push ps @ [End]" and "length ps < n"
  shows "prefix (out (run_ops sched new_queue)) (map Got ps @ [Finished]) \<and>
         (gen (run_ops sched new_queue) = Completed \<longrightarrow>
            out (run_ops sched new_queue) = map Got ps @ [Finished]) \<and>
         gen (consume n (run_ops sched new_queue)) = Completed \<and>
         out (consume n (run_ops sched new_queue)) = map Got ps @ [Finished] \<and>
         uncaught (consume n (run_ops sched new_queue)) = []"
proof -
  let ?s = "run_ops sched new_queue"
  have h: "hist ?s = map Item ps @ DONE # []"
    by (simp add: reach_hist entered_run_pushes_end [OF assms(1)])
  have t: "\<not> is_item (DONE :: ('a, 'b) slot)" by simp
  from log_of_history [OF reach_wf reach_shape h t assms(2)]
  have "prefix (out ?s) (map Got ps @ [Finished]) \<and>
        (gen ?s = Completed \<longrightarrow> out ?s = map Got ps @ [Finished]) \<and>
        gen (consume n ?s) = Completed \<and> out (consume n ?s) = map Got ps @ [Finished]"
    by simp
  moreover have "uncaught (consume n ?s) = []"
    using uncaught_no_error [OF pushes_end_no_error [OF assms(1)], of new_queue]
    by (simp add: uncaught_consume new_queue_def)
  ultimately show ?thesis by simp
qed

theorem pushes_then_end_delivered_witness:
  "filter is_producer [Pull, Push (1::nat), Push 2, Tick, Pull, Push 3, End :: (nat, unit) op]
     = map Push [1, 2, 3] @ [End] \<and>
   out (run_ops [Pull, Push (1::nat), Push 2, Tick, Pull, Push 3, End]
     (new_queue :: (nat, unit) async_queue)) = [Got 1, Got 2] \<and>
   out (consume 4 (run_ops [Pull, Push (1::nat), Push 2, Tick, Pull, Push 3, End]
     (new_queue :: (nat, unit) async_queue))) = [Got 1, Got 2, Got 3, Finished]"
proof -
  have f: "filter is_producer [Pull, Push (1::nat), Push 2, Tick, Pull, Push 3, End :: (nat, unit) op]
     = map Push [1, 2, 3] @ [End]" by simp
  have l: "length [1::nat, 2, 3] < 4" by simp
  have o: "out (run_ops [Pull, Push (1::nat), Push 2, Tick, Pull, Push 3, End]
     (new_queue :: (nat, unit) async_queue)) = [Got 1, Got 2]"
    by (simp add: new_queue_def queue_defs)
  from pushes_then_end_delivered [OF f l] f o show ?thesis by simp
qed

subsection \<open>Error and end\<close>

lemma decided_not_pending: "wf_queue s \<Longrightarrow> decided s \<Longrightarrow> \<not> pending s"
  by (auto simp: wf_queue_def decided_def pipeline_def split: if_splits)

lemma decided_step: "wf_queue s \<Longrightarrow> decided s \<Longrightarrow> decided (step x s)"
  by (cases x; cases "gen s"; cases "q s")
     (auto simp: wf_queue_def decided_def pipeline_def queue_defs
        split: slot.splits iter_result.splits if_splits)

lemma decided_uncaught: "wf_queue s \<Longrightarrow> decided s \<Longrightarrow> uncaught (run_ops ops s) = uncaught s"
proof (induction ops arbitrary: s)
  case Nil
  then show ?case by simp
next
  case (Cons x xs)
  from Cons.prems have "\<not> pending s" by (rule decided_not_pending)
  then have "uncaught (step x s) = uncaught s"
    using uncaught_step [of x s] by (cases x) auto
  with Cons.IH [of "step x s"] Cons.prems show ?case
    by (simp add: wf_step decided_step)
qed

lemma not_terminated_no_error: "\<not> terminated ops \<Longrightarrow> \<forall>x \<in> set ops. \<forall>e. x \<noteq> Error e"
  by (induction ops rule: terminated.induct) auto

lemma not_terminated_entered:
  assumes "\<not> terminated ops"
  shows "entered_run ops s = map Item (live_pushes ops)"
  using entered_run_live [of ops s] assms by auto

lemma decided_terminal_buffered:
  "\<not> pending s \<Longrightarrow> \<not> is_item t \<Longrightarrow> decided (s\<lparr>q := q s @ [t]\<rparr>)"
  by (auto simp: decided_def pipeline_def)

lemma error_not_pending: "\<not> pending s \<Longrightarrow> error e s = s\<lparr>q := q s @ [Failure e]\<rparr>"
  by (simp add: error_def)

lemma decided_after_end: "wf_queue s \<Longrightarrow> decided (step End s)"
  by (cases "gen s")
     (auto simp: wf_queue_def decided_def pipeline_def queue_defs split: if_splits)

text \<open>
  Claim C2, as amended. Let \<open>error(e)\<close> be the first call of \<open>error\<close> or \<open>end\<close>, made
  while no consumer is blocked waiting, and followed by \<open>end()\<close> and by any further calls
  and pulls. Then the consumer's log is at every moment an initial part of the values
  pushed before the error, in order, followed by the one thrown \<open>e\<close>; a consumer that goes
  on pulling ends with exactly that log, and nothing is thrown outside the iteration.
  When \<open>end()\<close> comes first and \<open>error(e)\<close> second, the same consumer ends with the values
  pushed before and normal completion: \<open>e\<close> is thrown nowhere.
\<close>

theorem error_then_end_without_waiter:
  assumes "\<not> terminated ops" and "\<not> pending (run_ops ops new_queue)"
    and "length (live_pushes ops) < n"
  shows "prefix (out (run_ops (ops @ Error e # End # later) new_queue))
           (map Got (live_pushes ops) @ [Thrown e]) \<and>
         out (consume n (run_ops (ops @ Error e # End # later) new_queue)) =
           map Got (live_pushes ops) @ [Thrown e] \<and>
         uncaught (consume n (run_ops (ops @ Error e # End # later) new_queue)) = [] \<and>
         out (consume n (run_ops (ops @ End # Error e # later) new_queue)) =
           map Got (live_pushes ops) @ [Finished] \<and>
         uncaught (consume n (run_ops (ops @ End # Error e # later) new_queue)) = []"
proof -
  let ?s0 = "run_ops ops new_queue"
  let ?s1 = "run_ops (ops @ Error e # End # later) new_queue"
  let ?s2 = "run_ops (ops @ End # Error e # later) new_queue"
  have wf0: "wf_queue ?s0" by (rule reach_wf)
  have u0: "uncaught ?s0 = []"
    using uncaught_no_error [OF not_terminated_no_error [OF assms(1)], of new_queue]
    by (simp add: new_queue_def)
  have tf: "\<not> is_item (Failure e :: ('a, 'b) slot)" and td: "\<not> is_item (DONE :: ('a, 'b) slot)"
    by simp_all
  have h1: "hist ?s1 = map Item (live_pushes ops) @
      Failure e # entered_run (End # later) (step (Error e) ?s0)"
    using assms(2)
    by (simp add: reach_hist entered_run_append not_terminated_entered [OF assms(1)])
  from log_of_history [OF reach_wf reach_shape h1 tf assms(3)]
  have a: "prefix (out ?s1) (map Got (live_pushes ops) @ [Thrown e])"
    and b: "out (consume n ?s1) = map Got (live_pushes ops) @ [Thrown e]" by simp_all
  have d1: "decided (step (Error e) ?s0)"
    using assms(2) by (simp add: error_not_pending decided_terminal_buffered)
  have "uncaught (step (Error e) ?s0) = []"
    using assms(2) u0 by (simp add: error_not_pending)
  with decided_uncaught [OF wf_step [OF wf0] d1, of "End # later"]
  have c: "uncaught ?s1 = []" by (simp add: run_ops_append)
  have h2: "hist ?s2 = map Item (live_pushes ops) @
      DONE # entered_run (Error e # later) (step End ?s0)"
    by (simp add: reach_hist entered_run_append not_terminated_entered [OF assms(1)])
  from log_of_history [OF reach_wf reach_shape h2 td assms(3)]
  have d: "out (consume n ?s2) = map Got (live_pushes ops) @ [Finished]" by simp
  have "uncaught (step End ?s0) = []"
    using u0 uncaught_step [of End ?s0] by simp
  with decided_uncaught [OF wf_step [OF wf0] decided_after_end [OF wf0], of "Error e # later"]
  have f: "uncaught ?s2 = []" by (simp add: run_ops_append)
  from a b c d f show ?thesis by (simp add: uncaught_consume)
qed


theorem error_then_end_without_waiter_witness:
  "\<not> terminated [Push (1::nat), Push 2, Pull :: (nat, string) op] \<and>
   \<not> pending (run_ops [Push (1::nat), Push 2, Pull] (new_queue :: (nat, string) async_queue)) \<and>
   out (consume 3 (run_ops ([Push (1::nat), Push 2, Pull] @ Error ''e'' # End # [Push 3, Pull, Pull])
     (new_queue :: (nat, string) async_queue))) = [Got 1, Got 2, Thrown ''e''] \<and>
   out (consume 3 (run_ops ([Push (1::nat), Push 2, Pull] @ End # Error ''e'' # [Push 3, Pull, Pull])
     (new_queue :: (nat, string) async_queue))) = [Got 1, Got 2, Finished]"
proof -
  have t: "\<not> terminated [Push (1::nat), Push 2, Pull :: (nat, string) op]" by simp
  have p: "\<not> pending (run_ops [Push (1::nat), Push 2, Pull]
      (new_queue :: (nat, string) async_queue))"
    by (simp add: new_queue_def queue_defs)
  have l: "length (live_pushes [Push (1::nat), Push 2, Pull :: (nat, string) op]) < 3" by simp
  from error_then_end_without_waiter [OF t p l, of "''e''" "[Push 3, Pull, Pull]"] t p
  show ?thesis by simp
qed

text \<open>
  Claim C2 as stated fails twice. With the consumer blocked on the empty queue,
  \<open>error(e)\<close> then \<open>end()\<close> ends the iteration normally and \<open>e\<close> is thrown by the
  \<open>setImmediate\<close> callback instead; with \<open>end()\<close> before \<open>error(e)\<close> the iteration ends
  normally after the buffered value and \<open>e\<close> is thrown nowhere.
\<close>

theorem error_end_counterexample:
  "out (consume 2 (run_ops [Pull, Error ''e'', End] (new_queue :: (nat, string) async_queue)))
     = [Finished] \<and>
   uncaught (consume 2 (run_ops [Pull, Error ''e'', End] (new_queue :: (nat, string) async_queue)))
     = [''e''] \<and>
   out (consume 2 (run_ops [Push 1, End, Error ''e''] (new_queue :: (nat, string) async_queue)))
     = [Got 1, Finished] \<and>
   uncaught (consume 2 (run_ops [Push 1, End, Error ''e''] (new_queue :: (nat, string) async_queue)))
     = []"
  by (simp add: new_queue_def queue_defs numeral_2_eq_2)

subsection \<open>The two copies of the queue\<close>

lemma cli_resolve_eq: "cli_resolve r s = resolve r s"
  by (simp add: cli_resolve_def resolve_def)

lemma cli_push_eq: "cli_push v s = push v s"
  by (simp add: cli_push_def push_def cli_resolve_eq)

lemma cli_error_eq: "cli_error e s = error e s"
  by (simp add: cli_error_def error_def cli_resolve_eq)

lemma cli_end_queue_eq: "cli_end_queue s = end_queue s"
  by (simp add: cli_end_queue_def end_queue_def cli_resolve_eq)

lemma cli_iterator_loop_eq: "cli_iterator_loop s = iterator_loop s"
  by (simp add: cli_iterator_loop_def iterator_loop_def)

lemma cli_pull_eq: "cli_pull s = pull s"
  by (simp add: cli_pull_def pull_def cli_iterator_loop_eq split: gen.splits)

lemma cli_tick_eq: "cli_tick s = tick s"
  by (simp add: cli_tick_def tick_def)

lemma cli_step_eq: "cli_step x s = step x s"
  by (cases x) (simp_all add: cli_push_eq cli_error_eq cli_end_queue_eq cli_pull_eq cli_tick_eq)

text \<open>
  Claim C10. From any state and under any sequence of pushes, errors, ends, pulls and
  continuations, the queue of the codex-cli copy and the queue of sdk.ts reach the same
  state: the same log of delivered values, thrown error and completion, the same errors
  thrown outside the iteration, the same buffer.
\<close>

theorem queue_copies_agree: "cli_run_ops ops s = run_ops ops s"
  unfolding cli_run_ops_def run_ops_def
  by (induction ops arbitrary: s) (simp_all add: cli_step_eq)

section \<open>Properties of the bridge\<close>

subsection \<open>Framing\<close>

lemma split_nl_not_Nil [simp]: "split_nl xs \<noteq> []"
  by (induction xs) auto

lemma split_nl_append:
  "split_nl (xs @ ys) = butlast (split_nl xs) @ split_nl (last (split_nl xs) @ ys)"
proof (induction xs)
  case Nil
  then show ?case by simp
next
  case (Cons c cs)
  show ?case
  proof (cases "c = CHR 0x0A")
    case True
    with Cons show ?thesis by simp
  next
    case False
    show ?thesis
    proof (cases "split_nl cs")
      case Nil
      then show ?thesis by simp
    next
      case (Cons l ls)
      note sp = Cons
      show ?thesis
      proof (cases ls)
        case Nil
        with sp False Cons.IH show ?thesis by simp
      next
        case (Cons l' ls')
        with sp False Cons.IH show ?thesis by simp
      qed
    qed
  qed
qed

lemma split_nl_no_newline: "CHR 0x0A \<notin> set xs \<Longrightarrow> split_nl xs = [xs]"
  by (induction xs) auto

lemma split_nl_line:
  "CHR 0x0A \<notin> set l \<Longrightarrow> split_nl (l @ CHR 0x0A # rest) = l # split_nl rest"
  by (induction l) auto

lemma split_nl_lines:
  "\<forall>l \<in> set lines. CHR 0x0A \<notin> set l \<Longrightarrow> CHR 0x0A \<notin> set frag \<Longrightarrow>
   split_nl (concat (map (\<lambda>l. l @ [CHR 0x0A]) lines) @ frag) = lines @ [frag]"
  by (induction lines) (auto simp: split_nl_no_newline split_nl_line)

lemma fold_handle_line:
  "fold (handle_line parse) lines s = run_ops (map Push (List.map_filter (parse_line parse) lines)) s"
proof (induction lines arbitrary: s)
  case Nil
  then show ?case by simp
next
  case (Cons l ls)
  then show ?case
    by (cases "parse l") (auto simp: handle_line_def parse_line_def)
qed

lemma map_filter_append: "List.map_filter f (xs @ ys) = List.map_filter f xs @ List.map_filter f ys"
  by (simp add: List.map_filter_def)


lemma run_Nil [simp]: "run parse [] b = b"
  by (simp add: run_def)

lemma run_Cons [simp]: "run parse (ev # evs) b = run parse evs (run_step parse ev b)"
  by (simp add: run_def)

lemma run_append: "run parse (xs @ ys) b = run parse ys (run parse xs b)"
  by (simp add: run_def)

lemma on_data_fields:
  "queue (on_data parse data b) =
     run_ops (map Push (List.map_filter (parse_line parse) (butlast (split_nl (buffer b @ data)))))
       (queue b)"
  "buffer (on_data parse data b) = last (split_nl (buffer b @ data))"
  "closePromise (on_data parse data b) = closePromise b"
  "forwarded (on_data parse data b) = forwarded b"
  "aborted (on_data parse data b) = aborted b"
  by (simp_all add: on_data_def Let_def fold_handle_line)

lemma split_nl_segments: "l \<in> set (split_nl xs) \<Longrightarrow> CHR 0x0A \<notin> set l"
proof (induction xs arbitrary: l)
  case Nil
  then show ?case by simp
next
  case (Cons c cs)
  show ?case
  proof (cases "split_nl cs")
    case Nil
    then show ?thesis by simp
  next
    case (Cons h t)
    with Cons.prems Cons.IH [of l] Cons.IH [of h] show ?thesis
      by (auto split: if_splits)
  qed
qed

lemma last_split_nl: "CHR 0x0A \<notin> set (last (split_nl xs))"
  using split_nl_segments [of "last (split_nl xs)" xs] by simp

lemma stdout_run:
  "CHR 0x0A \<notin> set (buffer b) \<Longrightarrow>
   queue (run parse (map Stdout chunks) b) =
     run_ops (map Push (List.map_filter (parse_line parse)
       (butlast (split_nl (buffer b @ concat chunks))))) (queue b) \<and>
   buffer (run parse (map Stdout chunks) b) = last (split_nl (buffer b @ concat chunks)) \<and>
   closePromise (run parse (map Stdout chunks) b) = closePromise b \<and>
   forwarded (run parse (map Stdout chunks) b) = forwarded b \<and>
   aborted (run parse (map Stdout chunks) b) = aborted b"
proof (induction chunks arbitrary: b)
  case Nil
  then show ?case by (simp add: split_nl_no_newline)
next
  case (Cons c cs)
  let ?b = "on_data parse c b"
  have nb: "CHR 0x0A \<notin> set (buffer ?b)"
    by (simp add: on_data_fields last_split_nl)
  have sp: "split_nl (buffer b @ c @ concat cs) =
      butlast (split_nl (buffer b @ c)) @ split_nl (buffer ?b @ concat cs)"
    using split_nl_append [of "buffer b @ c" "concat cs"] by (simp add: on_data_fields)
  have "butlast (split_nl (buffer b @ c @ concat cs)) =
      butlast (split_nl (buffer b @ c)) @ butlast (split_nl (buffer ?b @ concat cs))"
    by (simp add: sp butlast_append)
  moreover have "last (split_nl (buffer b @ c @ concat cs)) =
      last (split_nl (buffer ?b @ concat cs))"
    by (simp add: sp)
  ultimately show ?case
    using Cons.IH [OF nb] by (simp add: on_data_fields map_filter_append run_ops_append)
qed

lemma parse_line_eq:
  "\<forall>l. blank l \<longrightarrow> parse l = None \<Longrightarrow> parse_line parse = parse"
  by (auto simp: parse_line_def fun_eq_iff)

lemma fold_push: "fold push vs s = run_ops (map Push vs) s"
  by (induction vs arbitrary: s) auto

text \<open>
  Claim C7. Let the chunks of stdout, put end to end, be the lines \<open>lines\<close>, each closed
  by a newline, followed by a fragment \<open>frag\<close> with no newline. Fed to a bridge whose
  framer holds nothing, they leave the queue as the pushes, in order, of the results of
  the lines that parse, and nothing else, whatever the cut into chunks; the framer keeps
  exactly \<open>frag\<close>. A line that does not parse adds no push and throws nothing (the
  listener settles nothing). \<open>JSON.parse\<close> is any function that rejects the blank
  lines, as it does.
\<close>

theorem framer_yields_complete_lines:
  assumes "\<forall>l. blank l \<longrightarrow> parse l = None"
    and "\<forall>l \<in> set lines. CHR 0x0A \<notin> set l" and "CHR 0x0A \<notin> set frag"
    and "concat chunks = concat (map (\<lambda>l. l @ [CHR 0x0A]) lines) @ frag"
    and "buffer b = []"
  shows "queue (run parse (map Stdout chunks) b) =
           fold push (List.map_filter parse lines) (queue b) \<and>
         buffer (run parse (map Stdout chunks) b) = frag \<and>
         closePromise (run parse (map Stdout chunks) b) = closePromise b"
proof -
  have "split_nl (buffer b @ concat chunks) = lines @ [frag]"
    using split_nl_lines [OF assms(2,3)] assms(4,5) by simp
  moreover have "CHR 0x0A \<notin> set (buffer b)" using assms(5) by simp
  ultimately show ?thesis using stdout_run [of b parse chunks]
    by (simp add: parse_line_eq [OF assms(1)] fold_push)
qed


theorem framer_yields_complete_lines_witness:
  "queue (run (\<lambda>l. if l = ''10'' then Some (10::nat) else if l = ''20'' then Some 20 else None)
      (map Stdout [''10\<newline>x'', ''x\<newline>2'', ''0\<newline>3'']) new_bridge) =
     fold push [10, 20] (queue new_bridge) \<and>
   buffer (run (\<lambda>l. if l = ''10'' then Some (10::nat) else if l = ''20'' then Some 20 else None)
      (map Stdout [''10\<newline>x'', ''x\<newline>2'', ''0\<newline>3'']) new_bridge) = ''3''"
proof -
  let ?P = "\<lambda>l. if l = ''10'' then Some (10::nat) else if l = ''20'' then Some 20 else None"
  have 1: "\<forall>l. blank l \<longrightarrow> ?P l = None"
    by (auto simp: blank_def is_space_def)
  have 2: "\<forall>l \<in> set [''10'', ''xx'', ''20'']. CHR 0x0A \<notin> set l" by simp
  have 3: "CHR 0x0A \<notin> set ''3''" by simp
  have 4: "concat [''10\<newline>x'', ''x\<newline>2'', ''0\<newline>3''] =
      concat (map (\<lambda>l. l @ [CHR 0x0A]) [''10'', ''xx'', ''20'']) @ ''3''" by simp
  have 5: "buffer (new_bridge :: nat bridge) = []" by (simp add: new_bridge_def)
  from framer_yields_complete_lines [OF 1 2 3 4 5] show ?thesis
    by (simp add: List.map_filter_simps)
qed

subsection \<open>The bridge as a producer of calls on the queue\<close>

lemma cleanup_fields:
  "queue (cleanup parse b) =
     run_ops (map Push (List.map_filter (parse_line parse) [buffer b])) (queue b)"
  "buffer (cleanup parse b) = buffer b"
  "closePromise (cleanup parse b) = closePromise b"
  "forwarded (cleanup parse b) = forwarded b"
  "aborted (cleanup parse b) = aborted b"
  by (auto simp: cleanup_def parse_line_def split: option.splits)

lemma settle_fields:
  "queue (reject_close e b) = queue b" "queue (resolve_close b) = queue b"
  "buffer (reject_close e b) = buffer b" "buffer (resolve_close b) = buffer b"
  "forwarded (reject_close e b) = forwarded b" "forwarded (resolve_close b) = forwarded b"
  "aborted (reject_close e b) = aborted b" "aborted (resolve_close b) = aborted b"
  by (auto simp: reject_close_def resolve_close_def split: settlement.splits)

lemma settle_closePromise:
  "closePromise (reject_close e b) = (if closePromise b = Unsettled then Rejected e else closePromise b)"
  "closePromise (resolve_close b) = (if closePromise b = Unsettled then Fulfilled else closePromise b)"
  by (auto simp: reject_close_def resolve_close_def split: settlement.splits)

lemma on_close_fields:
  "queue (on_close parse code signal b) = queue (cleanup parse b)"
  "buffer (on_close parse code signal b) = buffer b"
  "forwarded (on_close parse code signal b) = forwarded b"
  "aborted (on_close parse code signal b) = aborted b"
  "closePromise (on_close parse code signal b) \<noteq> Unsettled"
  by (auto simp: on_close_def Let_def settle_fields settle_closePromise cleanup_fields)

lemma on_error_fields:
  "queue (on_error parse err b) = queue (cleanup parse b)"
  "buffer (on_error parse err b) = buffer b"
  "forwarded (on_error parse err b) = forwarded b"
  "aborted (on_error parse err b) = aborted b"
  "closePromise (on_error parse err b) \<noteq> Unsettled"
  by (auto simp: on_error_def Let_def settle_fields settle_closePromise cleanup_fields)

lemma forward_queue: "queue (forward b) = run_ops (emitted parse Forward b) (queue b)"
  by (auto simp: forward_def split: settlement.splits)

lemma step_queue: "queue (run_step parse ev b) = run_ops (emitted parse ev b) (queue b)"
proof (cases ev)
  case Forward
  then show ?thesis using forward_queue [of b parse] by simp
qed (simp_all add: on_data_fields on_close_fields on_error_fields cleanup_fields)

lemma queue_run: "queue (run parse evs b) = run_ops (emitted_run parse evs b) (queue b)"
  by (induction evs arbitrary: b) (simp_all add: step_queue run_ops_append)

lemma emitted_run_append:
  "emitted_run parse (xs @ ys) b = emitted_run parse xs b @ emitted_run parse ys (run parse xs b)"
  by (induction xs arbitrary: b) simp_all

lemma terminated_append: "terminated (xs @ ys) = (terminated xs \<or> terminated ys)"
  by (induction xs rule: terminated.induct) auto

lemma live_pushes_append:
  "live_pushes (xs @ ys) = live_pushes xs @ (if terminated xs then [] else live_pushes ys)"
  by (induction xs rule: live_pushes.induct) auto

lemma terminated_pushes [simp]: "\<not> terminated (map Push vs)"
  by (induction vs) auto

lemma live_pushes_pushes [simp]: "live_pushes (map Push vs) = vs"
  by (induction vs) auto

lemma forwarded_step: "forwarded b \<Longrightarrow> forwarded (run_step parse ev b)"
  by (cases ev) (simp_all add: on_data_fields on_close_fields on_error_fields forward_def)

lemma not_forwarded_emitted:
  "\<not> forwarded (run_step parse ev b) \<Longrightarrow> \<not> terminated (emitted parse ev b)"
  by (cases ev) (auto simp: forward_def split: settlement.splits if_splits)

lemma not_forwarded_run:
  "\<not> forwarded (run parse evs b) \<Longrightarrow> \<not> forwarded b"
proof (induction evs arbitrary: b)
  case Nil
  then show ?case by simp
next
  case (Cons ev evs)
  from Cons.IH [of "run_step parse ev b"] Cons.prems have "\<not> forwarded (run_step parse ev b)"
    by simp
  then show ?case using forwarded_step by blast
qed

lemma not_forwarded_not_terminated:
  "\<not> forwarded (run parse evs b) \<Longrightarrow> \<not> terminated (emitted_run parse evs b)"
proof (induction evs arbitrary: b)
  case Nil
  then show ?case by simp
next
  case (Cons ev evs)
  from Cons.prems have a: "\<not> forwarded (run parse evs (run_step parse ev b))" by simp
  from not_forwarded_run [OF a] have "\<not> terminated (emitted parse ev b)"
    by (rule not_forwarded_emitted)
  with Cons.IH [OF a] show ?case by (simp add: terminated_append)
qed

lemma forwarded_settled_step:
  "forwarded b \<longrightarrow> closePromise b \<noteq> Unsettled \<Longrightarrow>
   forwarded (run_step parse ev b) \<longrightarrow> closePromise (run_step parse ev b) \<noteq> Unsettled"
  by (cases ev)
     (auto simp: on_data_fields on_close_fields on_error_fields forward_def
        split: settlement.splits)

lemma forwarded_settled_run:
  "forwarded b \<longrightarrow> closePromise b \<noteq> Unsettled \<Longrightarrow>
   forwarded (run parse evs b) \<longrightarrow> closePromise (run parse evs b) \<noteq> Unsettled"
proof (induction evs arbitrary: b)
  case Nil
  then show ?case by simp
next
  case (Cons ev evs)
  from Cons.IH [OF forwarded_settled_step [OF Cons.prems]] show ?case by simp
qed

lemma reach_unsettled_not_forwarded:
  "closePromise (run parse evs new_bridge) = Unsettled \<Longrightarrow> \<not> forwarded (run parse evs new_bridge)"
  using forwarded_settled_run [of new_bridge parse evs] by (auto simp: new_bridge_def)

lemma queue_new_bridge [simp]: "queue new_bridge = new_queue"
  by (simp add: new_bridge_def)

subsection \<open>The flush and the terminal signal\<close>

lemma not_decided_items:
  assumes "shape s" and "hist s = map Item lp"
  shows "\<not> decided s"
proof (cases "gen s = Completed")
  case True
  from completed_split [OF assms(1) True, of lp "[]"] assms(2) show ?thesis by simp
next
  case False
  from running_split [OF assms(1) False, of lp "[]"] assms(2)
  obtain xs where "pipeline s = map Item xs" by auto
  with False show ?thesis by (simp add: decided_def list_all_iff)
qed

lemma terminal_seen_completed:
  assumes "shape s" and "out s = xs @ [x]" and "\<not> is_got x"
  shows "gen s = Completed"
proof (rule ccontr)
  assume "gen s \<noteq> Completed"
  with assms(1) have "list_all is_got (out s)" by (simp add: shape_def)
  with assms(2,3) show False by simp
qed

lemma flush_emitted:
  "is_termination t \<Longrightarrow> \<not> blank (buffer b) \<Longrightarrow> parse (buffer b) = Some ev \<Longrightarrow>
   emitted parse t b = [Push ev]"
  by (cases t) (simp_all add: parse_line_def)

lemma termination_settles:
  "is_termination t \<Longrightarrow>
   closePromise (run_step parse t b) \<noteq> Unsettled \<and>
   forwarded (run_step parse t b) = forwarded b"
  by (cases t) (simp_all add: on_close_fields on_error_fields)

text \<open>
  Claim C4, as amended. Let the child process end, by \<open>close\<close> or by \<open>error\<close>, while
  \<open>closePromise\<close> is unsettled (the first such event of the run, the one that decides
  the terminal signal), with a trailing fragment that parses to \<open>ev\<close>. The listener pushes
  \<open>ev\<close> and settles the promise; when it is done the queue has received no \<open>end\<close> and no
  \<open>error\<close> yet (that is left to the reaction of \<open>forward\<close>). Whatever follows, a
  consumer whose log ends with normal completion or a thrown failure has before it, after
  all it had seen when the process ended, the event \<open>ev\<close>.
\<close>

theorem flush_precedes_terminal_signal:
  assumes "closePromise (run parse pre new_bridge) = Unsettled"
    and "is_termination t"
    and "\<not> blank (buffer (run parse pre new_bridge))"
    and "parse (buffer (run parse pre new_bridge)) = Some ev"
  shows "queue (run_step parse t (run parse pre new_bridge)) =
           push ev (queue (run parse pre new_bridge)) \<and>
         closePromise (run_step parse t (run parse pre new_bridge)) \<noteq> Unsettled \<and>
         \<not> forwarded (run_step parse t (run parse pre new_bridge)) \<and>
         \<not> decided (queue (run_step parse t (run parse pre new_bridge))) \<and>
         (\<forall>post xs x. out (queue (run parse (pre @ t # post) new_bridge)) = xs @ [x] \<and> \<not> is_got x
            \<longrightarrow> (\<exists>ys zs. xs = out (queue (run parse pre new_bridge)) @ map Got (ys @ ev # zs)))"
proof -
  let ?b = "run parse pre new_bridge"
  let ?b1 = "run_step parse t ?b"
  let ?E = "emitted_run parse pre new_bridge"
  have nf: "\<not> forwarded ?b" using assms(1) by (rule reach_unsettled_not_forwarded)
  have nt: "\<not> terminated ?E" using nf by (rule not_forwarded_not_terminated)
  have em: "emitted parse t ?b = [Push ev]" using assms(2,3,4) by (rule flush_emitted)
  have qb: "queue ?b = run_ops ?E new_queue" by (simp add: queue_run)
  have 1: "queue ?b1 = push ev (queue ?b)" by (simp add: step_queue em)
  have 2: "closePromise ?b1 \<noteq> Unsettled" and 3: "\<not> forwarded ?b1"
    using termination_settles [OF assms(2), of parse ?b] nf by simp_all
  have qb1: "queue ?b1 = run_ops (?E @ [Push ev]) new_queue"
    by (simp add: step_queue em qb run_ops_append)
  have "\<not> terminated (?E @ [Push ev])" using nt by (simp add: terminated_append)
  then have "hist (queue ?b1) = map Item (live_pushes (?E @ [Push ev]))"
    by (simp add: qb1 reach_hist not_terminated_entered)
  then have 4: "\<not> decided (queue ?b1)"
    using not_decided_items [of "queue ?b1"] reach_shape [of "?E @ [Push ev]"]
    by (simp add: qb1)
  have hb: "hist (queue ?b) = map Item (live_pushes ?E)"
    using nt by (simp add: qb reach_hist not_terminated_entered)
  have sb: "shape (queue ?b)" by (simp add: qb reach_shape)
  from not_decided_items [OF sb hb] have "gen (queue ?b) \<noteq> Completed"
    by (simp add: decided_def)
  from running_split [OF sb this, of "live_pushes ?E" "[]"] hb
  obtain ds ys where d: "out (queue ?b) = map Got ds" "live_pushes ?E = ds @ ys" by auto
  have 5: "\<exists>ys zs. xs = out (queue ?b) @ map Got (ys @ ev # zs)"
    if a: "out (queue (run parse (pre @ t # post) new_bridge)) = xs @ [x]" "\<not> is_got x"
    for post xs x
  proof -
    let ?F = "emitted_run parse post ?b1"
    let ?s = "queue (run parse (pre @ t # post) new_bridge)"
    have qs: "?s = run_ops (?E @ Push ev # ?F) new_queue"
      by (simp add: queue_run emitted_run_append em)
    have lp: "live_pushes (?E @ Push ev # ?F) = live_pushes ?E @ ev # live_pushes ?F"
      using nt by (simp add: live_pushes_append)
    from entered_run_live [of "?E @ Push ev # ?F" new_queue] obtain rest where
      r: "entered_run (?E @ Push ev # ?F) new_queue =
            map Item (live_pushes (?E @ Push ev # ?F)) @ rest"
         "rest = [] \<or> \<not> is_item (hd rest)" by blast
    have ss: "shape ?s" by (simp add: qs reach_shape)
    have hs: "hist ?s = map Item (live_pushes (?E @ Push ev # ?F)) @ rest"
      by (simp only: qs reach_hist r(1))
    from terminal_seen_completed [OF ss a] have c: "gen ?s = Completed" .
    from completed_split [OF ss c hs r(2)] a(1)
    have "xs = map Got (live_pushes (?E @ Push ev # ?F))" by simp
    with lp d have "xs = out (queue ?b) @ map Got (ys @ ev # live_pushes ?F)" by simp
    then show ?thesis by blast
  qed
  from 1 2 3 4 5 show ?thesis by blast
qed


lemmas bridge_defs = on_data_def handle_line_def cleanup_def on_close_def on_error_def
  forward_def reject_close_def resolve_close_def new_bridge_def new_queue_def Let_def
  blank_def is_space_def

theorem flush_precedes_terminal_signal_witness:
  "closePromise (run (\<lambda>l. if l = ''10'' then Some (10::nat) else if l = ''20'' then Some 20 else None)
      [Next, Stdout ''10\<newline>20''] new_bridge) = Unsettled \<and>
   buffer (run (\<lambda>l. if l = ''10'' then Some (10::nat) else if l = ''20'' then Some 20 else None)
      [Next, Stdout ''10\<newline>20''] new_bridge) = ''20'' \<and>
   out (queue (run (\<lambda>l. if l = ''10'' then Some (10::nat) else if l = ''20'' then Some 20 else None)
      ([Next, Stdout ''10\<newline>20''] @ Close (Some 0) None # [Forward, Microtask, Next, Next])
      new_bridge)) = [Got 10, Got 20] @ [Finished] \<and>
   (\<exists>ys zs. [Got 10, Got 20] =
      out (queue (run (\<lambda>l. if l = ''10'' then Some (10::nat) else if l = ''20'' then Some 20 else None)
        [Next, Stdout ''10\<newline>20''] new_bridge)) @ map Got (ys @ 20 # zs))"
proof -
  let ?P = "\<lambda>l. if l = ''10'' then Some (10::nat) else if l = ''20'' then Some 20 else None"
  let ?pre = "[Next, Stdout ''10\<newline>20'']"
  have 1: "closePromise (run ?P ?pre new_bridge) = Unsettled"
    by (simp add: bridge_defs queue_defs)
  have 2: "is_termination (Close (Some 0) None)" by simp
  have b: "buffer (run ?P ?pre new_bridge) = ''20''"
    by (simp add: bridge_defs queue_defs)
  have 3: "\<not> blank (buffer (run ?P ?pre new_bridge))"
    unfolding b by (simp add: blank_def is_space_def)
  have 4: "?P (buffer (run ?P ?pre new_bridge)) = Some 20" unfolding b by simp
  have o: "out (queue (run ?P (?pre @ Close (Some 0) None # [Forward, Microtask, Next, Next])
      new_bridge)) = [Got 10, Got 20] @ [Finished]"
    by (simp add: bridge_defs queue_defs)
  have g: "\<not> is_got (Finished :: (nat, failure) obs)" by simp
  from flush_precedes_terminal_signal [OF 1 2 3 4] o g
  have "\<exists>ys zs. [Got 10, Got 20] = out (queue (run ?P ?pre new_bridge)) @ map Got (ys @ 20 # zs)"
    by blast
  with 1 b o show ?thesis by blast
qed

text \<open>
  Claim C4 as stated fails in a run where both listeners fire, as after an abort. The
  caller asks for the first event and gets the event of the line \<open>5\<close>; the framer
  holds \<open>[1\<close>, which does not parse. While the caller works on the event it aborts:
  the \<open>error\<close> event flushes nothing and rejects, and \<open>forward\<close> signals the queue.
  Then stdout brings \<open>0]\<close> and the child closes: the \<open>close\<close> listener flushes
  \<open>[10]\<close>, which parses, after the terminal signal. The caller's next pull throws the
  failure; the trailing event is never delivered and stays in the buffer behind
  \<open>DONE\<close>. The parser of the example does on \<open>5\<close>, \<open>[1\<close> and \<open>[10]\<close>, the strings
  it is given, what \<open>JSON.parse\<close> does.
\<close>

theorem late_flush_counterexample:
  "out (queue (run (\<lambda>l. if l = ''5'' then Some (5::nat) else if l = ''[10]'' then Some 10 else None)
      [Next, Stdout ''5\<newline>[1'', Microtask, Abort,
       ChildError (ChildErr ''AbortError'' ''The operation was aborted''), Forward,
       Stdout ''0]'', Close None (Some ''SIGTERM''), Next, Microtask, Next]
      new_bridge)) = [Got 5, Thrown (UserAbortError ''Codex was aborted by user'')] \<and>
   q (queue (run (\<lambda>l. if l = ''5'' then Some (5::nat) else if l = ''[10]'' then Some 10 else None)
      [Next, Stdout ''5\<newline>[1'', Microtask, Abort,
       ChildError (ChildErr ''AbortError'' ''The operation was aborted''), Forward,
       Stdout ''0]'', Close None (Some ''SIGTERM''), Next, Microtask, Next]
      new_bridge)) = [DONE, Item 10] \<and>
   uncaught (queue (run (\<lambda>l. if l = ''5'' then Some (5::nat) else if l = ''[10]'' then Some 10 else None)
      [Next, Stdout ''5\<newline>[1'', Microtask, Abort,
       ChildError (ChildErr ''AbortError'' ''The operation was aborted''), Forward,
       Stdout ''0]'', Close None (Some ''SIGTERM''), Next, Microtask, Next]
      new_bridge)) = [] \<and>
   q (queue (run (\<lambda>l. if l = ''5'' then Some (5::nat) else if l = ''[10]'' then Some 10 else None)
      [Next, Stdout ''5\<newline>[1'', Microtask, Abort,
       ChildError (ChildErr ''AbortError'' ''The operation was aborted''), Forward,
       Stdout ''0]'']
      new_bridge)) = [Failure (UserAbortError ''Codex was aborted by user''), DONE] \<and>
   buffer (run (\<lambda>l. if l = ''5'' then Some (5::nat) else if l = ''[10]'' then Some 10 else None)
      [Next, Stdout ''5\<newline>[1'', Microtask, Abort,
       ChildError (ChildErr ''AbortError'' ''The operation was aborted''), Forward,
       Stdout ''0]'']
      new_bridge) = ''[10]''"
  by (simp add: bridge_defs queue_defs)

subsection \<open>A failure and a waiting consumer\<close>

lemmas cli_defs = cli_on_data_def cli_handle_line_def cli_cleanup_def cli_on_close_def
  cli_on_error_def cli_forward_def cli_resolve_def cli_push_def cli_error_def
  cli_end_queue_def cli_iterator_loop_def cli_pull_def cli_tick_def

lemma query_Nil [simp]: "query parse [] b = b"
  by (simp add: query_def)

lemma query_Cons [simp]: "query parse (ev # evs) b = query parse evs (query_step parse ev b)"
  by (simp add: query_def)

text \<open>
  Claim C1 fails on the code where it says "including when the consumer is blocked". The
  caller has asked for the next event and waits on the empty queue; the child then ends
  with exit code 1, on a kill signal, by failing to spawn, or after the caller's abort;
  \<open>forward\<close> reacts and the generator continues. Each time the pull resolves as the end
  of the sequence, and the failure is thrown by the \<open>setImmediate\<close> callback, outside
  the iteration. The copy in codex-cli does the same.
\<close>

theorem blocked_consumer_failure_not_thrown:
  "out (queue (run (\<lambda>l. None :: nat option)
      [Next, Close (Some 1) None, Forward, Microtask] new_bridge)) = [Finished] \<and>
   uncaught (queue (run (\<lambda>l. None :: nat option)
      [Next, Close (Some 1) None, Forward, Microtask] new_bridge)) =
     [AgentProcessError ''Codex exited with code 1'' (Some 1)] \<and>
   out (queue (run (\<lambda>l. None :: nat option)
      [Next, Close None (Some ''SIGKILL''), Forward, Microtask] new_bridge)) = [Finished] \<and>
   uncaught (queue (run (\<lambda>l. None :: nat option)
      [Next, Close None (Some ''SIGKILL''), Forward, Microtask] new_bridge)) =
     [AgentProcessError ''Codex was terminated with signal SIGKILL'' None] \<and>
   out (queue (run (\<lambda>l. None :: nat option)
      [Next, ChildError (ChildErr ''Error'' ''spawn codex ENOENT''), Forward, Microtask]
      new_bridge)) = [Finished] \<and>
   uncaught (queue (run (\<lambda>l. None :: nat option)
      [Next, ChildError (ChildErr ''Error'' ''spawn codex ENOENT''), Forward, Microtask]
      new_bridge)) =
     [AgentSpawnError ''failed to run Codex: spawn codex ENOENT''
        (ChildErr ''Error'' ''spawn codex ENOENT'')] \<and>
   out (queue (run (\<lambda>l. None :: nat option)
      [Next, Abort, ChildError (ChildErr ''AbortError'' ''The operation was aborted''), Forward,
       Microtask] new_bridge)) = [Finished] \<and>
   uncaught (queue (run (\<lambda>l. None :: nat option)
      [Next, Abort, ChildError (ChildErr ''AbortError'' ''The operation was aborted''), Forward,
       Microtask] new_bridge)) = [UserAbortError ''Codex was aborted by user''] \<and>
   out (queue (query (\<lambda>l. None :: nat option)
      [Next, Close (Some 1) None, Forward, Microtask] new_bridge)) = [Finished] \<and>
   uncaught (queue (query (\<lambda>l. None :: nat option)
      [Next, Close (Some 1) None, Forward, Microtask] new_bridge)) =
     [PlainError ''Codex process exited with code 1'']"
  by (simp add: bridge_defs queue_defs cli_defs show_int_def digit_char_def)

text \<open>
  Claim C6 fails on the code for a consumer that is faster than the child. The caller
  receives the event of the line \<open>10\<close>, asks for the next one and waits; the child exits
  with code 2. The iteration ends normally after the event, and the \<open>AgentProcessError\<close>
  with code 2 is thrown outside it. When the consumer is not waiting at that moment, it
  is thrown from the pull, as the claim says. The parser of the example does on \<open>10\<close>,
  the one string it is given, what \<open>JSON.parse\<close> does.
\<close>

theorem exit_code_lost_for_waiting_consumer:
  "out (queue (run (\<lambda>l. if l = ''10'' then Some (10::nat) else None)
      [Next, Stdout ''10\<newline>'', Microtask, Next, Close (Some 2) None, Forward, Microtask]
      new_bridge)) = [Got 10, Finished] \<and>
   uncaught (queue (run (\<lambda>l. if l = ''10'' then Some (10::nat) else None)
      [Next, Stdout ''10\<newline>'', Microtask, Next, Close (Some 2) None, Forward, Microtask]
      new_bridge)) = [AgentProcessError ''Codex exited with code 2'' (Some 2)] \<and>
   out (queue (run (\<lambda>l. if l = ''10'' then Some (10::nat) else None)
      [Next, Stdout ''10\<newline>'', Microtask, Close (Some 2) None, Forward, Next]
      new_bridge)) = [Got 10, Thrown (AgentProcessError ''Codex exited with code 2'' (Some 2))] \<and>
   uncaught (queue (run (\<lambda>l. if l = ''10'' then Some (10::nat) else None)
      [Next, Stdout ''10\<newline>'', Microtask, Close (Some 2) None, Forward, Next]
      new_bridge)) = []"
  by (simp add: bridge_defs queue_defs show_int_def digit_char_def)

subsection \<open>Classification of a close on a signal\<close>

lemma cli_cleanup_eq: "cli_cleanup parse b = cleanup parse b"
  by (simp add: cli_cleanup_def cleanup_def cli_push_eq split: option.splits)

lemma cli_forward_eq: "cli_forward b = forward b"
  by (simp add: cli_forward_def forward_def cli_end_queue_eq cli_error_eq split: settlement.splits)

lemma on_close_settlement:
  "closePromise b = Unsettled \<Longrightarrow>
   closePromise (on_close parse code signal b) =
     (if signal = Some ''SIGTERM'' \<or> signal = Some ''SIGKILL''
      then Rejected (if aborted b then UserAbortError ''Codex was aborted by user''
                     else AgentProcessError (''Codex was terminated with signal '' @ the signal) code)
      else if code = Some 0 then Fulfilled
      else Rejected (AgentProcessError (''Codex exited with code '' @ show_code code) code))"
  by (simp add: on_close_def Let_def settle_closePromise cleanup_fields)

lemma cli_on_close_settlement:
  "closePromise b = Unsettled \<Longrightarrow>
   closePromise (cli_on_close parse code b) =
     (if aborted b then Rejected (AbortError ''Codex process aborted by user'')
      else if code = Some 0 then Fulfilled
      else Rejected (PlainError (''Codex process exited with code '' @ show_code code)))"
  by (simp add: cli_on_close_def Let_def settle_closePromise settle_fields cli_cleanup_eq
      cleanup_fields)

lemma cli_on_close_fields:
  "queue (cli_on_close parse code b) = queue (cleanup parse b)"
  "forwarded (cli_on_close parse code b) = forwarded b"
  by (auto simp: cli_on_close_def Let_def settle_fields cli_cleanup_eq cleanup_fields)


lemma on_error_settlement:
  "closePromise b = Unsettled \<Longrightarrow>
   closePromise (on_error parse err b) =
     Rejected (if err_name err = ''AbortError''
               then UserAbortError (if aborted b then ''Codex was aborted by user''
                                    else ''Codex was aborted'')
               else AgentSpawnError (''failed to run Codex: '' @ err_message err) err)"
  by (simp add: on_error_def Let_def settle_closePromise cleanup_fields)

lemma cli_on_error_settlement:
  "closePromise b = Unsettled \<Longrightarrow>
   closePromise (cli_on_error parse err b) =
     Rejected (if aborted b then AbortError ''Codex process aborted by user''
               else PlainError (''Codex process exited with error: '' @ err_message err))"
  by (simp add: cli_on_error_def Let_def settle_closePromise cli_cleanup_eq cleanup_fields)

lemma cli_on_data_closePromise: "closePromise (cli_on_data parse data b) = closePromise b"
  by (simp add: cli_on_data_def Let_def)

lemma settled_step:
  "closePromise b \<noteq> Unsettled \<Longrightarrow> closePromise (run_step parse ev b) = closePromise b"
  by (cases ev)
     (auto simp: on_data_fields on_close_def on_error_def Let_def settle_closePromise
        cleanup_fields forward_def split: settlement.splits)

lemma settled_run:
  "closePromise b \<noteq> Unsettled \<Longrightarrow> closePromise (run parse evs b) = closePromise b"
  by (induction evs arbitrary: b) (simp_all add: settled_step)

lemma cli_settled_step:
  "closePromise b \<noteq> Unsettled \<Longrightarrow> closePromise (query_step parse ev b) = closePromise b"
  by (cases ev)
     (auto simp: cli_on_data_closePromise cli_on_close_def cli_on_error_def Let_def
        settle_closePromise settle_fields cli_cleanup_eq cleanup_fields cli_forward_eq
        forward_def split: settlement.splits)

lemma cli_settled_run:
  "closePromise b \<noteq> Unsettled \<Longrightarrow> closePromise (query parse evs b) = closePromise b"
  by (induction evs arbitrary: b) (simp_all add: cli_settled_step)

lemma cli_termination_settles:
  "is_termination t \<Longrightarrow> closePromise (query_step parse t b) \<noteq> Unsettled"
  by (cases t)
     (auto simp: cli_on_close_def cli_on_error_def Let_def settle_closePromise settle_fields
        cli_cleanup_eq cleanup_fields)



subsection \<open>A failure and a consumer that is not waiting\<close>

lemma error_buffered_log:
  assumes "\<not> terminated ops" and "\<not> pending (run_ops ops new_queue)"
    and "length (live_pushes ops) < n"
  shows "out (consume n (run_ops (ops @ Error e # later) new_queue)) =
           map Got (live_pushes ops) @ [Thrown e] \<and>
         uncaught (consume n (run_ops (ops @ Error e # later) new_queue)) = []"
proof -
  let ?s0 = "run_ops ops new_queue"
  let ?s1 = "run_ops (ops @ Error e # later) new_queue"
  have wf0: "wf_queue ?s0" by (rule reach_wf)
  have u0: "uncaught ?s0 = []"
    using uncaught_no_error [OF not_terminated_no_error [OF assms(1)], of new_queue]
    by (simp add: new_queue_def)
  have tf: "\<not> is_item (Failure e :: ('a, 'b) slot)" by simp
  have h1: "hist ?s1 = map Item (live_pushes ops) @
      Failure e # entered_run later (step (Error e) ?s0)"
    using assms(2)
    by (simp add: reach_hist entered_run_append not_terminated_entered [OF assms(1)])
  from log_of_history [OF reach_wf reach_shape h1 tf assms(3)]
  have b: "out (consume n ?s1) = map Got (live_pushes ops) @ [Thrown e]" by simp
  have d1: "decided (step (Error e) ?s0)"
    using assms(2) by (simp add: error_not_pending decided_terminal_buffered)
  have "uncaught (step (Error e) ?s0) = []"
    using assms(2) u0 by (simp add: error_not_pending)
  with decided_uncaught [OF wf_step [OF wf0] d1, of later]
  have c: "uncaught ?s1 = []" by (simp add: run_ops_append)
  from b c show ?thesis by (simp add: uncaught_consume)
qed

lemma running_prefix:
  assumes "\<not> terminated ops"
  shows "prefix (out (run_ops ops new_queue)) (map Got (live_pushes ops))"
proof -
  let ?s = "run_ops ops new_queue"
  have h: "hist ?s = map Item (live_pushes ops)"
    using assms by (simp add: reach_hist not_terminated_entered)
  from not_decided_items [OF reach_shape h] have "gen ?s \<noteq> Completed"
    by (simp add: decided_def)
  from running_split [OF reach_shape this, of "live_pushes ops" "[]"] h
  show ?thesis by auto
qed

lemma failure_thrown:
  assumes "closePromise (run parse evs new_bridge) = Rejected e"
    and "\<not> forwarded (run parse evs new_bridge)"
    and "\<not> pending (queue (run parse evs new_bridge))"
    and "length (live_pushes (emitted_run parse evs new_bridge)) < n"
  shows "prefix (out (queue (run parse evs new_bridge)))
           (map Got (live_pushes (emitted_run parse evs new_bridge))) \<and>
         out (consume n (queue (run parse (evs @ Forward # post) new_bridge))) =
           map Got (live_pushes (emitted_run parse evs new_bridge)) @ [Thrown e] \<and>
         uncaught (consume n (queue (run parse (evs @ Forward # post) new_bridge))) = []"
proof -
  let ?E = "emitted_run parse evs new_bridge"
  let ?b = "run parse evs new_bridge"
  have nt: "\<not> terminated ?E" using assms(2) by (rule not_forwarded_not_terminated)
  have qb: "queue ?b = run_ops ?E new_queue" by (simp add: queue_run)
  have np: "\<not> pending (run_ops ?E new_queue)" using assms(3) by (simp add: qb)
  have em: "emitted parse Forward ?b = [Error e, End]" using assms(1,2) by simp
  have qf: "queue (run parse (evs @ Forward # post) new_bridge) =
      run_ops (?E @ Error e # (End # emitted_run parse post (run_step parse Forward ?b))) new_queue"
    by (simp add: queue_run emitted_run_append em del: run_step.simps emitted.simps)
  from error_buffered_log [OF nt np assms(4)] running_prefix [OF nt] show ?thesis
    by (simp only: qf qb)
qed

subsection \<open>The bridge of codex-cli as a producer of calls on the queue\<close>

lemma cli_handle_line_eq: "cli_handle_line parse l s = handle_line parse l s"
  by (simp add: cli_handle_line_def handle_line_def cli_push_eq split: option.splits)

lemma cli_on_data_eq: "cli_on_data parse d b = on_data parse d b"
proof -
  have "cli_handle_line parse = handle_line parse"
    by (simp add: fun_eq_iff cli_handle_line_eq)
  then show ?thesis by (simp add: cli_on_data_def on_data_def)
qed

lemma cli_on_error_fields:
  "queue (cli_on_error parse err b) = queue (cleanup parse b)"
  "forwarded (cli_on_error parse err b) = forwarded b"
  by (auto simp: cli_on_error_def Let_def settle_fields cli_cleanup_eq cleanup_fields)

lemma query_append: "query parse (xs @ ys) b = query parse ys (query parse xs b)"
  by (simp add: query_def)

lemma query_step_queue: "queue (query_step parse ev b) = run_ops (emitted parse ev b) (queue b)"
proof (cases ev)
  case Forward
  then show ?thesis using forward_queue [of b parse] by (simp add: cli_forward_eq)
qed (simp_all add: cli_on_data_eq on_data_fields cli_on_close_fields cli_on_error_fields
       cleanup_fields cli_pull_eq cli_tick_eq)

lemma query_queue_run:
  "queue (query parse evs b) = run_ops (query_emitted_run parse evs b) (queue b)"
  by (induction evs arbitrary: b) (simp_all add: query_step_queue run_ops_append)

lemma query_emitted_run_append:
  "query_emitted_run parse (xs @ ys) b =
     query_emitted_run parse xs b @ query_emitted_run parse ys (query parse xs b)"
  by (induction xs arbitrary: b) simp_all

lemma query_forwarded_step: "forwarded b \<Longrightarrow> forwarded (query_step parse ev b)"
  by (cases ev)
     (simp_all add: cli_on_data_eq on_data_fields cli_on_close_fields cli_on_error_fields
        cli_forward_eq forward_def)

lemma query_not_forwarded_emitted:
  "\<not> forwarded (query_step parse ev b) \<Longrightarrow> \<not> terminated (emitted parse ev b)"
  by (cases ev) (auto simp: cli_forward_eq forward_def split: settlement.splits if_splits)

lemma query_not_forwarded_run:
  "\<not> forwarded (query parse evs b) \<Longrightarrow> \<not> forwarded b"
proof (induction evs arbitrary: b)
  case Nil
  then show ?case by simp
next
  case (Cons ev evs)
  from Cons.IH [of "query_step parse ev b"] Cons.prems
  have "\<not> forwarded (query_step parse ev b)" by simp
  then show ?case using query_forwarded_step by blast
qed

lemma query_not_forwarded_not_terminated:
  "\<not> forwarded (query parse evs b) \<Longrightarrow> \<not> terminated (query_emitted_run parse evs b)"
proof (induction evs arbitrary: b)
  case Nil
  then show ?case by simp
next
  case (Cons ev evs)
  from Cons.prems have a: "\<not> forwarded (query parse evs (query_step parse ev b))" by simp
  from query_not_forwarded_run [OF a] have "\<not> terminated (emitted parse ev b)"
    by (rule query_not_forwarded_emitted)
  with Cons.IH [OF a] show ?case by (simp add: terminated_append)
qed

lemma query_failure_thrown:
  assumes "closePromise (query parse evs new_bridge) = Rejected e"
    and "\<not> forwarded (query parse evs new_bridge)"
    and "\<not> pending (queue (query parse evs new_bridge))"
    and "length (live_pushes (query_emitted_run parse evs new_bridge)) < n"
  shows "prefix (out (queue (query parse evs new_bridge)))
           (map Got (live_pushes (query_emitted_run parse evs new_bridge))) \<and>
         out (consume n (queue (query parse (evs @ Forward # post) new_bridge))) =
           map Got (live_pushes (query_emitted_run parse evs new_bridge)) @ [Thrown e] \<and>
         uncaught (consume n (queue (query parse (evs @ Forward # post) new_bridge))) = []"
proof -
  let ?E = "query_emitted_run parse evs new_bridge"
  let ?b = "query parse evs new_bridge"
  have nt: "\<not> terminated ?E" using assms(2) by (rule query_not_forwarded_not_terminated)
  have qb: "queue ?b = run_ops ?E new_queue" by (simp add: query_queue_run)
  have np: "\<not> pending (run_ops ?E new_queue)" using assms(3) by (simp add: qb)
  have em: "emitted parse Forward ?b = [Error e, End]" using assms(1,2) by simp
  have qf: "queue (query parse (evs @ Forward # post) new_bridge) =
      run_ops (?E @ Error e # (End # query_emitted_run parse post (query_step parse Forward ?b)))
        new_queue"
    by (simp add: query_queue_run query_emitted_run_append em
        del: query_step.simps emitted.simps)
  from error_buffered_log [OF nt np assms(4)] running_prefix [OF nt] show ?thesis
    by (simp only: qf qb)
qed

text \<open>
  Claim C5, as amended. Let the child end while \<open>closePromise\<close> is unsettled. On a close
  with a signal: in \<open>run\<close>, for \<open>SIGTERM\<close> and \<open>SIGKILL\<close> the promise is rejected with
  \<open>UserAbortError\<close> when the caller had aborted and else with an \<open>AgentProcessError\<close>
  whose message ends with the signal's name, and for any other signal the listener goes by
  the exit code alone; in \<open>query\<close> the listener does not take the signal, rejects with
  \<open>AbortError\<close> when the caller had aborted and else goes by the exit code alone, with a
  plain \<open>Error\<close> that does not name the signal. On the \<open>error\<close> event (which an abort
  raises before the close): \<open>run\<close> rejects with \<open>UserAbortError\<close> for an \<open>AbortError\<close>
  and \<open>query\<close> with \<open>AbortError\<close> when the caller had aborted. Whatever comes between
  and after, when \<open>forward\<close> reacts while no consumer is blocked on the empty queue, the
  bridge throws that failure: a consumer that goes on pulling receives the events pushed
  until then, which begin with those it had seen, and then its pull throws the failure of
  the rejection, and nothing is thrown outside the iteration.
\<close>

theorem termination_classified_and_thrown:
  assumes "closePromise (run parse pre new_bridge) = Unsettled"
    and "closePromise (query parse pre new_bridge) = Unsettled"
  shows "closePromise (run parse (pre @ [Close code (Some sg)]) new_bridge) =
           (if sg = ''SIGTERM'' \<or> sg = ''SIGKILL''
            then Rejected (if aborted (run parse pre new_bridge)
                           then UserAbortError ''Codex was aborted by user''
                           else AgentProcessError (''Codex was terminated with signal '' @ sg) code)
            else if code = Some 0 then Fulfilled
            else Rejected (AgentProcessError (''Codex exited with code '' @ show_code code) code)) \<and>
         closePromise (query parse (pre @ [Close code (Some sg)]) new_bridge) =
           (if aborted (query parse pre new_bridge)
            then Rejected (AbortError ''Codex process aborted by user'')
            else if code = Some 0 then Fulfilled
            else Rejected (PlainError (''Codex process exited with code '' @ show_code code))) \<and>
         closePromise (run parse (pre @ [ChildError err]) new_bridge) =
           Rejected (if err_name err = ''AbortError''
                     then UserAbortError (if aborted (run parse pre new_bridge)
                                          then ''Codex was aborted by user''
                                          else ''Codex was aborted'')
                     else AgentSpawnError (''failed to run Codex: '' @ err_message err) err) \<and>
         closePromise (query parse (pre @ [ChildError err]) new_bridge) =
           Rejected (if aborted (query parse pre new_bridge)
                     then AbortError ''Codex process aborted by user''
                     else PlainError (''Codex process exited with error: '' @ err_message err)) \<and>
         (\<forall>t e mid post n.
            is_termination t \<and>
            closePromise (run parse (pre @ [t]) new_bridge) = Rejected e \<and>
            \<not> forwarded (run parse (pre @ t # mid) new_bridge) \<and>
            \<not> pending (queue (run parse (pre @ t # mid) new_bridge)) \<and>
            length (live_pushes (emitted_run parse (pre @ t # mid) new_bridge)) < n \<longrightarrow>
            prefix (out (queue (run parse (pre @ t # mid) new_bridge)))
              (map Got (live_pushes (emitted_run parse (pre @ t # mid) new_bridge))) \<and>
            out (consume n (queue (run parse (pre @ t # mid @ Forward # post) new_bridge))) =
              map Got (live_pushes (emitted_run parse (pre @ t # mid) new_bridge)) @ [Thrown e] \<and>
            uncaught (consume n (queue (run parse (pre @ t # mid @ Forward # post) new_bridge)))
              = []) \<and>
         (\<forall>t e mid post n.
            is_termination t \<and>
            closePromise (query parse (pre @ [t]) new_bridge) = Rejected e \<and>
            \<not> forwarded (query parse (pre @ t # mid) new_bridge) \<and>
            \<not> pending (queue (query parse (pre @ t # mid) new_bridge)) \<and>
            length (live_pushes (query_emitted_run parse (pre @ t # mid) new_bridge)) < n \<longrightarrow>
            prefix (out (queue (query parse (pre @ t # mid) new_bridge)))
              (map Got (live_pushes (query_emitted_run parse (pre @ t # mid) new_bridge))) \<and>
            out (consume n (queue (query parse (pre @ t # mid @ Forward # post) new_bridge))) =
              map Got (live_pushes (query_emitted_run parse (pre @ t # mid) new_bridge)) @
                [Thrown e] \<and>
            uncaught (consume n (queue (query parse (pre @ t # mid @ Forward # post) new_bridge)))
              = [])"
proof -
  have 1: "closePromise (run parse (pre @ [Close code (Some sg)]) new_bridge) =
           (if sg = ''SIGTERM'' \<or> sg = ''SIGKILL''
            then Rejected (if aborted (run parse pre new_bridge)
                           then UserAbortError ''Codex was aborted by user''
                           else AgentProcessError (''Codex was terminated with signal '' @ sg) code)
            else if code = Some 0 then Fulfilled
            else Rejected (AgentProcessError (''Codex exited with code '' @ show_code code) code))"
    using on_close_settlement [OF assms(1), of parse code "Some sg"] by (simp add: run_append)
  have 2: "closePromise (query parse (pre @ [Close code (Some sg)]) new_bridge) =
           (if aborted (query parse pre new_bridge)
            then Rejected (AbortError ''Codex process aborted by user'')
            else if code = Some 0 then Fulfilled
            else Rejected (PlainError (''Codex process exited with code '' @ show_code code)))"
    using cli_on_close_settlement [OF assms(2), of parse code] by (simp add: query_append)
  have 3: "closePromise (run parse (pre @ [ChildError err]) new_bridge) =
           Rejected (if err_name err = ''AbortError''
                     then UserAbortError (if aborted (run parse pre new_bridge)
                                          then ''Codex was aborted by user''
                                          else ''Codex was aborted'')
                     else AgentSpawnError (''failed to run Codex: '' @ err_message err) err)"
    using on_error_settlement [OF assms(1), of parse err] by (simp add: run_append)
  have 4: "closePromise (query parse (pre @ [ChildError err]) new_bridge) =
           Rejected (if aborted (query parse pre new_bridge)
                     then AbortError ''Codex process aborted by user''
                     else PlainError (''Codex process exited with error: '' @ err_message err))"
    using cli_on_error_settlement [OF assms(2), of parse err] by (simp add: query_append)
  have 5: "prefix (out (queue (run parse (pre @ t # mid) new_bridge)))
              (map Got (live_pushes (emitted_run parse (pre @ t # mid) new_bridge))) \<and>
            out (consume n (queue (run parse (pre @ t # mid @ Forward # post) new_bridge))) =
              map Got (live_pushes (emitted_run parse (pre @ t # mid) new_bridge)) @ [Thrown e] \<and>
            uncaught (consume n (queue (run parse (pre @ t # mid @ Forward # post) new_bridge)))
              = []"
    if a: "closePromise (run parse (pre @ [t]) new_bridge) = Rejected e"
      "\<not> forwarded (run parse (pre @ t # mid) new_bridge)"
      "\<not> pending (queue (run parse (pre @ t # mid) new_bridge))"
      "length (live_pushes (emitted_run parse (pre @ t # mid) new_bridge)) < n"
    for t e mid post n
  proof -
    have "run parse (pre @ t # mid) new_bridge = run parse mid (run parse (pre @ [t]) new_bridge)"
      by (simp add: run_append)
    then have "closePromise (run parse (pre @ t # mid) new_bridge) = Rejected e"
      using a(1) settled_run [of "run parse (pre @ [t]) new_bridge" parse mid] by simp
    from failure_thrown [OF this a(2,3,4), of post] show ?thesis by simp
  qed
  have 6: "prefix (out (queue (query parse (pre @ t # mid) new_bridge)))
              (map Got (live_pushes (query_emitted_run parse (pre @ t # mid) new_bridge))) \<and>
            out (consume n (queue (query parse (pre @ t # mid @ Forward # post) new_bridge))) =
              map Got (live_pushes (query_emitted_run parse (pre @ t # mid) new_bridge)) @
                [Thrown e] \<and>
            uncaught (consume n (queue (query parse (pre @ t # mid @ Forward # post) new_bridge)))
              = []"
    if a: "closePromise (query parse (pre @ [t]) new_bridge) = Rejected e"
      "\<not> forwarded (query parse (pre @ t # mid) new_bridge)"
      "\<not> pending (queue (query parse (pre @ t # mid) new_bridge))"
      "length (live_pushes (query_emitted_run parse (pre @ t # mid) new_bridge)) < n"
    for t e mid post n
  proof -
    have "query parse (pre @ t # mid) new_bridge =
        query parse mid (query parse (pre @ [t]) new_bridge)"
      by (simp add: query_append)
    then have "closePromise (query parse (pre @ t # mid) new_bridge) = Rejected e"
      using a(1) cli_settled_run [of "query parse (pre @ [t]) new_bridge" parse mid] by simp
    from query_failure_thrown [OF this a(2,3,4), of post] show ?thesis by simp
  qed
  from 1 2 3 4 5 6 show ?thesis by blast
qed

theorem termination_classified_and_thrown_witness:
  "out (consume 2 (queue (run (\<lambda>l. if l = ''5'' then Some (5::nat) else None)
      ([Next, Stdout ''5\<newline>'', Microtask, Abort] @ Close None (Some ''SIGTERM'') # [] @
         Forward # [Next]) new_bridge))) =
     [Got 5, Thrown (UserAbortError ''Codex was aborted by user'')] \<and>
   out (consume 2 (queue (query (\<lambda>l. if l = ''5'' then Some (5::nat) else None)
      ([Next, Stdout ''5\<newline>'', Microtask, Abort] @ Close None (Some ''SIGTERM'') # [] @
         Forward # [Next]) new_bridge))) =
     [Got 5, Thrown (AbortError ''Codex process aborted by user'')] \<and>
   out (consume 2 (queue (run (\<lambda>l. if l = ''5'' then Some (5::nat) else None)
      ([Next, Stdout ''5\<newline>'', Microtask] @ Close None (Some ''SIGTERM'') # [] @
         Forward # [Next]) new_bridge))) =
     [Got 5, Thrown (AgentProcessError ''Codex was terminated with signal SIGTERM'' None)]"
proof -
  let ?P = "\<lambda>l. if l = ''5'' then Some (5::nat) else None"
  let ?A = "[Next, Stdout ''5\<newline>'', Microtask, Abort]"
  let ?B = "[Next, Stdout ''5\<newline>'', Microtask]"
  let ?t = "Close None (Some ''SIGTERM'')"
  have ua: "closePromise (run ?P ?A new_bridge) = Unsettled"
    "closePromise (query ?P ?A new_bridge) = Unsettled"
    by (simp_all add: bridge_defs queue_defs cli_defs)
  have ub: "closePromise (run ?P ?B new_bridge) = Unsettled"
    "closePromise (query ?P ?B new_bridge) = Unsettled"
    by (simp_all add: bridge_defs queue_defs cli_defs)
  have t: "is_termination ?t" by simp
  note TA = termination_classified_and_thrown [OF ua, of None "''SIGTERM''" "ChildErr [] []"]
  note TB = termination_classified_and_thrown [OF ub, of None "''SIGTERM''" "ChildErr [] []"]
  have ea: "closePromise (run ?P (?A @ [?t]) new_bridge) =
      Rejected (UserAbortError ''Codex was aborted by user'')"
    using TA [THEN conjunct1] by (simp add: bridge_defs queue_defs)
  have eq: "closePromise (query ?P (?A @ [?t]) new_bridge) =
      Rejected (AbortError ''Codex process aborted by user'')"
    using TA [THEN conjunct2, THEN conjunct1] by (simp add: bridge_defs queue_defs cli_defs)
  have eb: "closePromise (run ?P (?B @ [?t]) new_bridge) =
      Rejected (AgentProcessError ''Codex was terminated with signal SIGTERM'' None)"
    using TB [THEN conjunct1] by (simp add: bridge_defs queue_defs)
  have fa: "\<not> forwarded (run ?P (?A @ ?t # []) new_bridge)"
    "\<not> pending (queue (run ?P (?A @ ?t # []) new_bridge))"
    "length (live_pushes (emitted_run ?P (?A @ ?t # []) new_bridge)) < 2"
    "live_pushes (emitted_run ?P (?A @ ?t # []) new_bridge) = [5]"
    by (simp_all add: bridge_defs queue_defs parse_line_def)
  have fq: "\<not> forwarded (query ?P (?A @ ?t # []) new_bridge)"
    "\<not> pending (queue (query ?P (?A @ ?t # []) new_bridge))"
    "length (live_pushes (query_emitted_run ?P (?A @ ?t # []) new_bridge)) < 2"
    "live_pushes (query_emitted_run ?P (?A @ ?t # []) new_bridge) = [5]"
    by (simp_all add: bridge_defs queue_defs cli_defs parse_line_def)
  have fb: "\<not> forwarded (run ?P (?B @ ?t # []) new_bridge)"
    "\<not> pending (queue (run ?P (?B @ ?t # []) new_bridge))"
    "length (live_pushes (emitted_run ?P (?B @ ?t # []) new_bridge)) < 2"
    "live_pushes (emitted_run ?P (?B @ ?t # []) new_bridge) = [5]"
    by (simp_all add: bridge_defs queue_defs parse_line_def)
  from TA [THEN conjunct2, THEN conjunct2, THEN conjunct2, THEN conjunct2, THEN conjunct1, rule_format,
      where t = "?t" and e = "UserAbortError ''Codex was aborted by user''"
        and mid = "[]" and post = "[Next]" and n = 2]
    t ea fa
  have 1: "out (consume 2 (queue (run ?P (?A @ ?t # [] @ Forward # [Next]) new_bridge))) =
      [Got 5, Thrown (UserAbortError ''Codex was aborted by user'')]"
    by (simp del: run_Cons consume.simps)
  from TA [THEN conjunct2, THEN conjunct2, THEN conjunct2, THEN conjunct2, THEN conjunct2, rule_format,
      where t = "?t" and e = "AbortError ''Codex process aborted by user''"
        and mid = "[]" and post = "[Next]" and n = 2]
    t eq fq
  have 2: "out (consume 2 (queue (query ?P (?A @ ?t # [] @ Forward # [Next]) new_bridge))) =
      [Got 5, Thrown (AbortError ''Codex process aborted by user'')]"
    by (simp del: query_Cons consume.simps)
  from TB [THEN conjunct2, THEN conjunct2, THEN conjunct2, THEN conjunct2, THEN conjunct1, rule_format,
      where t = "?t" and e = "AgentProcessError ''Codex was terminated with signal SIGTERM'' None"
        and mid = "[]" and post = "[Next]" and n = 2]
    t eb fb
  have 3: "out (consume 2 (queue (run ?P (?B @ ?t # [] @ Forward # [Next]) new_bridge))) =
      [Got 5, Thrown (AgentProcessError ''Codex was terminated with signal SIGTERM'' None)]"
    by (simp del: run_Cons consume.simps)
  from 1 2 3 show ?thesis by (simp only:) 
qed

text \<open>
  Claim C5 as stated fails where it asks both bridges to name the signal. The caller has
  received the event of the line \<open>5\<close> and works on it; there is no abort. A child of
  \<open>query\<close> killed by \<open>SIGTERM\<close> (exit code \<open>null\<close>) makes the next pull throw a plain
  \<open>Error\<close> about the code \<open>null\<close>; a child of \<open>run\<close> killed by \<open>SIGINT\<close> makes it throw
  an \<open>AgentProcessError\<close> about the code \<open>null\<close>. Neither carries the signal's name. The
  parser of the example does on \<open>5\<close>, the one string it is given, what \<open>JSON.parse\<close>
  does.
\<close>

theorem signal_name_counterexample:
  "out (queue (query (\<lambda>l. if l = ''5'' then Some (5::nat) else None)
      [Next, Stdout ''5\<newline>'', Microtask, Close None (Some ''SIGTERM''), Forward, Next]
      new_bridge)) = [Got 5, Thrown (PlainError ''Codex process exited with code null'')] \<and>
   uncaught (queue (query (\<lambda>l. if l = ''5'' then Some (5::nat) else None)
      [Next, Stdout ''5\<newline>'', Microtask, Close None (Some ''SIGTERM''), Forward, Next]
      new_bridge)) = [] \<and>
   out (queue (run (\<lambda>l. if l = ''5'' then Some (5::nat) else None)
      [Next, Stdout ''5\<newline>'', Microtask, Close None (Some ''SIGINT''), Forward, Next]
      new_bridge)) = [Got 5, Thrown (AgentProcessError ''Codex exited with code null'' None)] \<and>
   uncaught (queue (run (\<lambda>l. if l = ''5'' then Some (5::nat) else None)
      [Next, Stdout ''5\<newline>'', Microtask, Close None (Some ''SIGINT''), Forward, Next]
      new_bridge)) = []"
  by (simp add: bridge_defs queue_defs cli_defs)

end
